theory Spec2Isabelle
  imports Main "HOL-Library.Multiset"
begin

section \<open>The store: nodes, queue objects, exceptions\<close>

text \<open>
  The header \<^verbatim>\<open>src/src/priority_queue.hpp\<close> implements a skew heap over
  heap-allocated nodes linked by raw pointers. The model keeps the pointers: a
  node pointer is an \<open>addr option\<close> (\<open>None\<close> is \<^verbatim>\<open>nullptr\<close>), the free store
  is a partial map from addresses to nodes, and queue objects live in a second
  store so that \<^verbatim>\<open>this == &other\<close> can be decided.

  The result of a call is \<open>Some (Inr v, w)\<close> when it returns \<open>v\<close>,
  \<open>Some (Inl e, w)\<close> when the exception \<open>e\<close> leaves it, and \<open>None\<close> when it has
  no defined outcome: unbounded recursion, or an access through a pointer that
  does not point to a live object.
\<close>

type_synonym addr = nat

text \<open>
  \<^verbatim>\<open>exceptions.hpp\<close> is not part of the sources. The queue names two of its
  classes, \<^verbatim>\<open>runtime_error\<close> and \<^verbatim>\<open>container_is_empty\<close>; every other exception
  type (\<^verbatim>\<open>std::bad_alloc\<close>, whatever the element type or the comparison throws)
  is \<open>foreign\<close>. The number distinguishes exception objects, so that rethrowing
  (\<^verbatim>\<open>throw;\<close>) differs from throwing a fresh \<^verbatim>\<open>runtime_error()\<close>, which is
  \<open>runtime_error 0\<close>.
\<close>

datatype exn = runtime_error nat | container_is_empty | foreign nat

record 'a Node =
  "value" :: 'a
  left :: "addr option"
  right :: "addr option"

text \<open>
  \<^verbatim>\<open>Compare comp\<close>: a call \<^verbatim>\<open>comp(x, y)\<close> may throw, and its outcome may depend
  on state of its own (a comparison instrumented to fail on its n-th call), which
  is the component \<open>cstate\<close> of the world.
\<close>

type_synonym ('a, 'c) compare = "'c \<Rightarrow> 'a \<Rightarrow> 'a \<Rightarrow> (exn + bool) \<times> 'c"

record ('a, 'c) priority_queue =
  root :: "addr option"
  elementCount :: nat
  comp :: "('a, 'c) compare"

text \<open>
  \<open>node_faults\<close> and \<open>array_faults\<close> are the outcomes of the coming
  \<^verbatim>\<open>new Node(v)\<close> and \<^verbatim>\<open>new Node*[cap]\<close> expressions (\<open>Some e\<close>: it throws
  \<open>e\<close>; \<open>None\<close>, or nothing left: it succeeds). A successful \<^verbatim>\<open>new Node\<close>
  returns the address \<open>brk\<close> and moves \<open>brk\<close> on. \<open>elementCount\<close> is a
  \<^verbatim>\<open>size_t\<close> that counts live nodes, which occupy distinct storage, so it is read
  as a natural number.
\<close>

record ('a, 'c) world =
  nodes :: "addr \<Rightarrow> 'a Node option"
  queues :: "nat \<Rightarrow> ('a, 'c) priority_queue option"
  cstate :: 'c
  node_faults :: "exn option list"
  array_faults :: "exn option list"
  brk :: addr

type_synonym ('a, 'c, 'r) outcome = "((exn + 'r) \<times> ('a, 'c) world) option"

definition new_Node :: "'a \<Rightarrow> ('a, 'c) world \<Rightarrow> (exn + addr) \<times> ('a, 'c) world" where
  "new_Node v w =
     (case node_faults w of
        Some e # rest \<Rightarrow> (Inl e, w\<lparr>node_faults := rest\<rparr>)
      | _ \<Rightarrow> (Inr (brk w),
              w\<lparr>nodes := (nodes w)(brk w \<mapsto> \<lparr>value = v, left = None, right = None\<rparr>),
                node_faults := tl (node_faults w),
                brk := Suc (brk w)\<rparr>))"

definition new_array :: "('a, 'c) world \<Rightarrow> (exn + unit) \<times> ('a, 'c) world" where
  "new_array w =
     (case array_faults w of
        Some e # rest \<Rightarrow> (Inl e, w\<lparr>array_faults := rest\<rparr>)
      | _ \<Rightarrow> (Inr (), w\<lparr>array_faults := tl (array_faults w)\<rparr>))"

text \<open>Writes through a node pointer; \<open>None\<close> when the pointer is not live.\<close>

definition set_left :: "addr \<Rightarrow> addr option \<Rightarrow> ('a, 'c) world \<Rightarrow> ('a, 'c) world option" where
  "set_left p v w =
     (case nodes w p of
        None \<Rightarrow> None
      | Some n \<Rightarrow> Some (w\<lparr>nodes := (nodes w)(p \<mapsto> n\<lparr>left := v\<rparr>)\<rparr>))"

definition set_right :: "addr \<Rightarrow> addr option \<Rightarrow> ('a, 'c) world \<Rightarrow> ('a, 'c) world option" where
  "set_right p v w =
     (case nodes w p of
        None \<Rightarrow> None
      | Some n \<Rightarrow> Some (w\<lparr>nodes := (nodes w)(p \<mapsto> n\<lparr>right := v\<rparr>)\<rparr>))"

text \<open>\<^verbatim>\<open>delete p\<close> for a node.\<close>

definition delete_Node :: "addr \<Rightarrow> ('a, 'c) world \<Rightarrow> ('a, 'c) world option" where
  "delete_Node p w =
     (case nodes w p of
        None \<Rightarrow> None
      | Some n \<Rightarrow> Some (w\<lparr>nodes := (nodes w)(p := None)\<rparr>))"

section \<open>MergeGuard\<close>

record MergeGuard =
  node :: "addr option"
  origLeft :: "addr option"
  origRight :: "addr option"
  active :: bool

text \<open>The constructor reads the two child links of \<open>n\<close>.\<close>

definition MergeGuard_ctor :: "addr option \<Rightarrow> ('a, 'c) world \<Rightarrow> MergeGuard option" where
  "MergeGuard_ctor n w =
     (case n of
        None \<Rightarrow> Some \<lparr>node = None, origLeft = None, origRight = None, active = True\<rparr>
      | Some p \<Rightarrow>
          (case nodes w p of
             None \<Rightarrow> None
           | Some nd \<Rightarrow>
               Some \<lparr>node = n, origLeft = left nd, origRight = right nd, active = True\<rparr>))"

definition commit :: "MergeGuard \<Rightarrow> MergeGuard" where
  "commit g = g\<lparr>active := False\<rparr>"

text \<open>The destructor writes the two links back while the guard is active.\<close>

definition MergeGuard_dtor :: "MergeGuard \<Rightarrow> ('a, 'c) world \<Rightarrow> ('a, 'c) world option" where
  "MergeGuard_dtor g w =
     (if active g then
        (case node g of
           None \<Rightarrow> Some w
         | Some p \<Rightarrow> Option.bind (set_left p (origLeft g) w) (set_right p (origRight g)))
      else Some w)"

section \<open>merge\_nodes\<close>

text \<open>
  Lines 59 to 63 of \<^verbatim>\<open>merge_nodes\<close>: \<^verbatim>\<open>a->right = newRight\<close>, then the swap of
  the two children through \<^verbatim>\<open>tmpChild\<close>.
\<close>

definition install_and_swap ::
  "addr \<Rightarrow> addr option \<Rightarrow> ('a, 'c) world \<Rightarrow> ('a, 'c) world option" where
  "install_and_swap a newRight w =
     Option.bind (set_right a newRight w)
       (\<lambda>w1. case nodes w1 a of
                None \<Rightarrow> None
              | Some n \<Rightarrow>
                  (let tmpChild = left n
                   in Option.bind (set_left a (right n) w1) (set_right a tmpChild)))"

partial_function (option) merge_nodes ::
  "('a, 'c) compare \<Rightarrow> addr option \<Rightarrow> addr option \<Rightarrow> ('a, 'c) world
     \<Rightarrow> ((exn + addr option) \<times> ('a, 'c) world) option"
where
  "merge_nodes cmp a b w =
     (case a of
        None \<Rightarrow> Some (Inr b, w)
      | Some pa \<Rightarrow>
     (case b of
        None \<Rightarrow> Some (Inr a, w)
      | Some pb \<Rightarrow>
     (case nodes w pa of
        None \<Rightarrow> None
      | Some na \<Rightarrow>
     (case nodes w pb of
        None \<Rightarrow> None
      | Some nb \<Rightarrow>
     (case cmp (cstate w) (value na) (value nb) of
        (Inl e, c) \<Rightarrow> Some (Inl e, w\<lparr>cstate := c\<rparr>)
      | (Inr below, c) \<Rightarrow>
     (let w1 = w\<lparr>cstate := c\<rparr>;
          a' = (if below then pb else pa);
          b' = (if below then pa else pb)
      in
     (case MergeGuard_ctor (Some a') w1 of
        None \<Rightarrow> None
      | Some guard \<Rightarrow>
     (case nodes w1 a' of
        None \<Rightarrow> None
      | Some n \<Rightarrow>
          Option.bind (merge_nodes cmp (right n) (Some b') w1)
            (\<lambda>(r, w2).
               (case r of
                  Inl e \<Rightarrow> map_option (Pair (Inl e)) (MergeGuard_dtor guard w2)
                | Inr newRight \<Rightarrow>
                    Option.bind (install_and_swap a' newRight w2)
                      (\<lambda>w3. map_option (Pair (Inr (Some a')))
                               (MergeGuard_dtor (commit guard) w3))))))))))))"


section \<open>clear\_nodes and clone\_nodes\<close>

text \<open>
  \<^verbatim>\<open>clear_nodes\<close> walks the tree with a work stack \<^verbatim>\<open>Node **stack\<close> of capacity
  \<^verbatim>\<open>cap\<close>. The model keeps the entries \<^verbatim>\<open>stack[0 .. top-1]\<close> as a list, the last
  one pushed first, so \<^verbatim>\<open>top\<close> is its length; each \<^verbatim>\<open>new Node*[cap]\<close> may throw.
  \<open>push_pending\<close> is the block the loop runs for either child:
  \<^verbatim>\<open>if (child) { if (top + 1 >= cap) { ...grow... } stack[top++] = child; }\<close>.
\<close>

definition push_pending ::
  "addr option \<Rightarrow> addr list \<Rightarrow> nat \<Rightarrow> ('a, 'c) world
     \<Rightarrow> (exn + addr list \<times> nat) \<times> ('a, 'c) world" where
  "push_pending child stack cap w =
     (case child of
        None \<Rightarrow> (Inr (stack, cap), w)
      | Some c \<Rightarrow>
          (if length stack + 1 \<ge> cap then
             (case new_array w of
                (Inl e, w1) \<Rightarrow> (Inl e, w1)
              | (Inr u, w1) \<Rightarrow> (Inr (c # stack, cap * 2), w1))
           else (Inr (c # stack, cap), w)))"

partial_function (option) clear_loop ::
  "addr list \<Rightarrow> nat \<Rightarrow> ('a, 'c) world \<Rightarrow> ((exn + unit) \<times> ('a, 'c) world) option"
where
  "clear_loop stack cap w =
     (case stack of
        [] \<Rightarrow> Some (Inr (), w)
      | cur # rest \<Rightarrow>
     (case nodes w cur of
        None \<Rightarrow> None
      | Some n \<Rightarrow>
     (case push_pending (left n) rest cap w of
        (Inl e, w1) \<Rightarrow> Some (Inl e, w1)
      | (Inr (s1, cap1), w1) \<Rightarrow>
     (case nodes w1 cur of
        None \<Rightarrow> None
      | Some n1 \<Rightarrow>
     (case push_pending (right n1) s1 cap1 w1 of
        (Inl e, w2) \<Rightarrow> Some (Inl e, w2)
      | (Inr (s2, cap2), w2) \<Rightarrow>
     (case delete_Node cur w2 of
        None \<Rightarrow> None
      | Some w3 \<Rightarrow> clear_loop s2 cap2 w3))))))"

definition clear_nodes ::
  "addr option \<Rightarrow> ('a, 'c) world \<Rightarrow> ((exn + unit) \<times> ('a, 'c) world) option" where
  "clear_nodes n w =
     (case n of
        None \<Rightarrow> Some (Inr (), w)
      | Some p \<Rightarrow>
          (case new_array w of
             (Inl e, w1) \<Rightarrow> Some (Inl e, w1)
           | (Inr u, w1) \<Rightarrow> clear_loop [p] 1024 w1))"

text \<open>
  The handler of \<^verbatim>\<open>clone_nodes\<close>: \<^verbatim>\<open>catch (...) { clear_nodes(copy); throw; }\<close>.
  An exception of \<^verbatim>\<open>clear_nodes\<close> leaves the handler in place of the one caught.
\<close>

definition clone_handler ::
  "addr \<Rightarrow> exn \<Rightarrow> ('a, 'c) world \<Rightarrow> ((exn + addr option) \<times> ('a, 'c) world) option" where
  "clone_handler copy e w =
     (case clear_nodes (Some copy) w of
        None \<Rightarrow> None
      | Some (Inl e', w') \<Rightarrow> Some (Inl e', w')
      | Some (Inr u, w') \<Rightarrow> Some (Inl e, w'))"

partial_function (option) clone_nodes ::
  "addr option \<Rightarrow> ('a, 'c) world \<Rightarrow> ((exn + addr option) \<times> ('a, 'c) world) option"
where
  "clone_nodes n w =
     (case n of
        None \<Rightarrow> Some (Inr None, w)
      | Some p \<Rightarrow>
     (case nodes w p of
        None \<Rightarrow> None
      | Some nd \<Rightarrow>
     (case new_Node (value nd) w of
        (Inl e, w1) \<Rightarrow> Some (Inl e, w1)
      | (Inr copy, w1) \<Rightarrow>
     (case nodes w1 p of
        None \<Rightarrow> None
      | Some nd1 \<Rightarrow>
          Option.bind (clone_nodes (left nd1) w1)
            (\<lambda>(r, w2).
               (case r of
                  Inl e \<Rightarrow> clone_handler copy e w2
                | Inr cl \<Rightarrow>
                    Option.bind (set_left copy cl w2)
                      (\<lambda>w3.
                         (case nodes w3 p of
                            None \<Rightarrow> None
                          | Some nd3 \<Rightarrow>
                              Option.bind (clone_nodes (right nd3) w3)
                                (\<lambda>(r', w4).
                                   (case r' of
                                      Inl e \<Rightarrow> clone_handler copy e w4
                                    | Inr cr \<Rightarrow>
                                        map_option (Pair (Inr (Some copy)))
                                          (set_right copy cr w4)))))))))))"

section \<open>The public operations\<close>

text \<open>
  Each takes the address \<open>this\<close> of the queue object. What the two handlers of
  \<^verbatim>\<open>push\<close>, \<^verbatim>\<open>pop\<close> and \<^verbatim>\<open>merge\<close> let out: a \<^verbatim>\<open>runtime_error\<close> is rethrown,
  anything else is replaced by \<^verbatim>\<open>runtime_error()\<close>.
\<close>

fun rethrown :: "exn \<Rightarrow> exn" where
  "rethrown (runtime_error k) = runtime_error k"
| "rethrown e = runtime_error 0"

definition priority_queue_ctor ::
  "('a, 'c) compare \<Rightarrow> nat \<Rightarrow> ('a, 'c) world \<Rightarrow> ((exn + unit) \<times> ('a, 'c) world) option" where
  "priority_queue_ctor dflt this w =
     (case queues w this of
        Some q \<Rightarrow> None
      | None \<Rightarrow>
          Some (Inr (), w\<lparr>queues := (queues w)(this \<mapsto> \<lparr>root = None, elementCount = 0, comp = dflt\<rparr>)\<rparr>))"

definition priority_queue_copy ::
  "nat \<Rightarrow> nat \<Rightarrow> ('a, 'c) world \<Rightarrow> ((exn + unit) \<times> ('a, 'c) world) option" where
  "priority_queue_copy this other w =
     (case queues w this of
        Some q \<Rightarrow> None
      | None \<Rightarrow>
     (case queues w other of
        None \<Rightarrow> None
      | Some ot \<Rightarrow>
          (let q0 = \<lparr>root = None, elementCount = elementCount ot, comp = comp ot\<rparr> in
           (case root ot of
              None \<Rightarrow> Some (Inr (), w\<lparr>queues := (queues w)(this \<mapsto> q0)\<rparr>)
            | Some p \<Rightarrow>
                (case clone_nodes (root ot) w of
                   None \<Rightarrow> None
                 | Some (Inl e, w1) \<Rightarrow> Some (Inl e, w1)
                 | Some (Inr r, w1) \<Rightarrow>
                     Some (Inr (), w1\<lparr>queues := (queues w1)(this \<mapsto> q0\<lparr>root := r\<rparr>)\<rparr>))))))"

definition priority_queue_dtor ::
  "nat \<Rightarrow> ('a, 'c) world \<Rightarrow> ((exn + unit) \<times> ('a, 'c) world) option" where
  "priority_queue_dtor this w =
     (case queues w this of
        None \<Rightarrow> None
      | Some q \<Rightarrow>
          (case clear_nodes (root q) w of
             Some (Inr u, w1) \<Rightarrow> Some (Inr (), w1\<lparr>queues := (queues w1)(this := None)\<rparr>)
           | _ \<Rightarrow> None))"

definition assign ::
  "nat \<Rightarrow> nat \<Rightarrow> ('a, 'c) world \<Rightarrow> ((exn + unit) \<times> ('a, 'c) world) option" where
  "assign this other w =
     (if this = other then Some (Inr (), w)
      else
     (case queues w other of
        None \<Rightarrow> None
      | Some ot \<Rightarrow>
     (case (case root ot of None \<Rightarrow> Some (Inr None, w) | Some p \<Rightarrow> clone_nodes (root ot) w) of
        None \<Rightarrow> None
      | Some (Inl e, w1) \<Rightarrow> Some (Inl e, w1)
      | Some (Inr newRoot, w1) \<Rightarrow>
     (case queues w1 this of
        None \<Rightarrow> None
      | Some q \<Rightarrow>
     (case clear_nodes (root q) w1 of
        None \<Rightarrow> None
      | Some (Inl e, w2) \<Rightarrow> Some (Inl e, w2)
      | Some (Inr u, w2) \<Rightarrow>
     (case queues w2 this of
        None \<Rightarrow> None
      | Some q2 \<Rightarrow>
     (case queues w2 other of
        None \<Rightarrow> None
      | Some ot2 \<Rightarrow>
          Some (Inr (),
            w2\<lparr>queues := (queues w2)(this \<mapsto>
                  q2\<lparr>root := newRoot, elementCount := elementCount ot2, comp := comp ot2\<rparr>)\<rparr>))))))))"

definition empty_pq :: "nat \<Rightarrow> ('a, 'c) world \<Rightarrow> bool option" where
  "empty_pq this w = map_option (\<lambda>q. elementCount q = 0) (queues w this)"

definition size_pq :: "nat \<Rightarrow> ('a, 'c) world \<Rightarrow> nat option" where
  "size_pq this w = map_option elementCount (queues w this)"

definition top_pq ::
  "nat \<Rightarrow> ('a, 'c) world \<Rightarrow> ((exn + 'a) \<times> ('a, 'c) world) option" where
  "top_pq this w =
     (case empty_pq this w of
        None \<Rightarrow> None
      | Some True \<Rightarrow> Some (Inl container_is_empty, w)
      | Some False \<Rightarrow>
     (case queues w this of
        None \<Rightarrow> None
      | Some q \<Rightarrow>
     (case root q of
        None \<Rightarrow> None
      | Some p \<Rightarrow>
     (case nodes w p of
        None \<Rightarrow> None
      | Some n \<Rightarrow> Some (Inr (value n), w)))))"

text \<open>
  In \<^verbatim>\<open>push\<close> both handlers run \<^verbatim>\<open>node->left = node->right = nullptr; delete node;\<close>
  when \<^verbatim>\<open>node\<close> is set, and \<^verbatim>\<open>node\<close> is still null when \<^verbatim>\<open>new Node(e)\<close> threw.
  The local \<^verbatim>\<open>node\<close> is \<open>nodep\<close> here.
\<close>

definition push ::
  "nat \<Rightarrow> 'a \<Rightarrow> ('a, 'c) world \<Rightarrow> ((exn + unit) \<times> ('a, 'c) world) option" where
  "push this e w =
     (case queues w this of
        None \<Rightarrow> None
      | Some q \<Rightarrow>
     (case new_Node e w of
        (Inl x, w1) \<Rightarrow> Some (Inl (rethrown x), w1)
      | (Inr nodep, w1) \<Rightarrow>
     (case merge_nodes (comp q) (root q) (Some nodep) w1 of
        None \<Rightarrow> None
      | Some (Inl x, w2) \<Rightarrow>
          map_option (Pair (Inl (rethrown x)))
            (Option.bind (set_right nodep None w2)
               (\<lambda>w3. Option.bind (set_left nodep None w3) (delete_Node nodep)))
      | Some (Inr merged, w2) \<Rightarrow>
          (case queues w2 this of
             None \<Rightarrow> None
           | Some q2 \<Rightarrow>
               Some (Inr (),
                 w2\<lparr>queues := (queues w2)(this \<mapsto>
                       q2\<lparr>root := merged, elementCount := elementCount q2 + 1\<rparr>)\<rparr>)))))"

definition pop ::
  "nat \<Rightarrow> ('a, 'c) world \<Rightarrow> ((exn + unit) \<times> ('a, 'c) world) option" where
  "pop this w =
     (case empty_pq this w of
        None \<Rightarrow> None
      | Some True \<Rightarrow> Some (Inl container_is_empty, w)
      | Some False \<Rightarrow>
     (case queues w this of
        None \<Rightarrow> None
      | Some q \<Rightarrow>
     (case root q of
        None \<Rightarrow> None
      | Some oldRoot \<Rightarrow>
     (case nodes w oldRoot of
        None \<Rightarrow> None
      | Some n \<Rightarrow>
     (case merge_nodes (comp q) (left n) (right n) w of
        None \<Rightarrow> None
      | Some (Inl x, w1) \<Rightarrow> Some (Inl (rethrown x), w1)
      | Some (Inr merged, w1) \<Rightarrow>
     (case queues w1 this of
        None \<Rightarrow> None
      | Some q1 \<Rightarrow>
          (let w2 = w1\<lparr>queues := (queues w1)(this \<mapsto> q1\<lparr>root := merged\<rparr>)\<rparr> in
           Option.bind (set_right oldRoot None w2)
             (\<lambda>w3. Option.bind (set_left oldRoot None w3)
                (\<lambda>w4. Option.bind (delete_Node oldRoot w4)
                   (\<lambda>w5. case queues w5 this of
                       None \<Rightarrow> None
                     | Some q5 \<Rightarrow>
                         Some (Inr (),
                           w5\<lparr>queues := (queues w5)(this \<mapsto>
                                 q5\<lparr>elementCount := elementCount q5 - 1\<rparr>)\<rparr>)))))))))))"

definition merge_pq ::
  "nat \<Rightarrow> nat \<Rightarrow> ('a, 'c) world \<Rightarrow> ((exn + unit) \<times> ('a, 'c) world) option" where
  "merge_pq this other w =
     (if this = other then Some (Inr (), w)
      else
     (case queues w this of
        None \<Rightarrow> None
      | Some q \<Rightarrow>
     (case queues w other of
        None \<Rightarrow> None
      | Some ot \<Rightarrow>
     (case merge_nodes (comp q) (root q) (root ot) w of
        None \<Rightarrow> None
      | Some (Inl x, w1) \<Rightarrow> Some (Inl (rethrown x), w1)
      | Some (Inr merged, w1) \<Rightarrow>
     (case queues w1 this of
        None \<Rightarrow> None
      | Some q1 \<Rightarrow>
     (case queues w1 other of
        None \<Rightarrow> None
      | Some ot1 \<Rightarrow>
          Some (Inr (),
            w1\<lparr>queues := (queues w1)
                  (this \<mapsto> q1\<lparr>root := merged, elementCount := elementCount q1 + elementCount ot1\<rparr>,
                   other \<mapsto> ot1\<lparr>root := None, elementCount := 0\<rparr>)\<rparr>)))))))"

text \<open>
  A call of the interface, and its effect on the world. \<open>dflt\<close> is the
  default-constructed \<^verbatim>\<open>Compare\<close> object that the default constructor stores.
\<close>

datatype 'a call =
    Construct nat
  | CopyConstruct nat nat
  | Destroy nat
  | Assign nat nat
  | Top nat
  | Push nat 'a
  | Pop nat
  | Size nat
  | Empty nat
  | Merge nat nat

fun exec ::
  "('a, 'c) compare \<Rightarrow> 'a call \<Rightarrow> ('a, 'c) world \<Rightarrow> ((exn + unit) \<times> ('a, 'c) world) option" where
  "exec dflt (Construct this) w = priority_queue_ctor dflt this w"
| "exec dflt (CopyConstruct this other) w = priority_queue_copy this other w"
| "exec dflt (Destroy this) w = priority_queue_dtor this w"
| "exec dflt (Assign this other) w = assign this other w"
| "exec dflt (Top this) w = map_option (\<lambda>(r, w'). (map_sum id (\<lambda>v. ()) r, w')) (top_pq this w)"
| "exec dflt (Push this e) w = push this e w"
| "exec dflt (Pop this) w = pop this w"
| "exec dflt (Size this) w = map_option (\<lambda>n. (Inr (), w)) (size_pq this w)"
| "exec dflt (Empty this) w = map_option (\<lambda>b. (Inr (), w)) (empty_pq this w)"
| "exec dflt (Merge this other) w = merge_pq this other w"

section \<open>Trees in the store\<close>

datatype 'b tree = Leaf | Br "'b tree" 'b "'b tree"

text \<open>
  \<open>tree_at h p t\<close>: the nodes reachable from the pointer \<open>p\<close> in the store \<open>h\<close>
  form the tree \<open>t\<close>, whose labels are the address and the value of each node.
\<close>

fun tree_at :: "(addr \<Rightarrow> 'a Node option) \<Rightarrow> addr option \<Rightarrow> (addr \<times> 'a) tree \<Rightarrow> bool" where
  "tree_at h None Leaf = True"
| "tree_at h (Some p) (Br l (q, x) r) =
     (p = q \<and>
      (case h p of
         None \<Rightarrow> False
       | Some n \<Rightarrow> value n = x \<and> tree_at h (left n) l \<and> tree_at h (right n) r))"
| "tree_at h None (Br l y r) = False"
| "tree_at h (Some p) Leaf = False"

fun labels :: "'b tree \<Rightarrow> 'b list" where
  "labels Leaf = []"
| "labels (Br l x r) = x # labels l @ labels r"

definition addrs :: "(addr \<times> 'a) tree \<Rightarrow> addr list" where
  "addrs t = map fst (labels t)"

definition elems :: "(addr \<times> 'a) tree \<Rightarrow> 'a list" where
  "elems t = map snd (labels t)"

text \<open>No node is shared: every address occurs once.\<close>

definition owned_tree :: "(addr \<Rightarrow> 'a Node option) \<Rightarrow> addr option \<Rightarrow> (addr \<times> 'a) tree \<Rightarrow> bool" where
  "owned_tree h p t = (tree_at h p t \<and> distinct (addrs t))"

section \<open>The skew-heap merge of the specification\<close>

text \<open>
  The merge as the specification words it, on trees: if one input is absent the
  other is returned; otherwise the roots are compared, the root that is not
  ordered below the other survives (the first on a tie), the survivor's right
  child is merged with the other tree and installed as its right child, and the
  survivor's children are swapped. The comparison may fail, and the failure is
  the result.
\<close>

fun swap_children :: "'b tree \<Rightarrow> 'b tree" where
  "swap_children Leaf = Leaf"
| "swap_children (Br l x r) = Br r x l"

function spec_merge ::
  "('c \<Rightarrow> 'b \<Rightarrow> 'b \<Rightarrow> (exn + bool) \<times> 'c) \<Rightarrow> 'c \<Rightarrow> 'b tree \<Rightarrow> 'b tree \<Rightarrow> (exn + 'b tree) \<times> 'c"
where
  "spec_merge cmp c Leaf b = (Inr b, c)"
| "spec_merge cmp c (Br l x r) Leaf = (Inr (Br l x r), c)"
| "spec_merge cmp c (Br l1 x r1) (Br l2 y r2) =
     (case cmp c x y of
        (Inl e, c1) \<Rightarrow> (Inl e, c1)
      | (Inr below, c1) \<Rightarrow>
          (if below then
             (case spec_merge cmp c1 r2 (Br l1 x r1) of
                (Inl e, c2) \<Rightarrow> (Inl e, c2)
              | (Inr m, c2) \<Rightarrow> (Inr (swap_children (Br l2 y m)), c2))
           else
             (case spec_merge cmp c1 r1 (Br l2 y r2) of
                (Inl e, c2) \<Rightarrow> (Inl e, c2)
              | (Inr m, c2) \<Rightarrow> (Inr (swap_children (Br l1 x m)), c2))))"
  by pat_completeness auto
termination
  by (relation "measure (\<lambda>(cmp, c, a, b). size a + size b)") auto

text \<open>The comparison of the queue, read on labelled nodes.\<close>

definition on_value :: "('a, 'c) compare \<Rightarrow> 'c \<Rightarrow> addr \<times> 'a \<Rightarrow> addr \<times> 'a \<Rightarrow> (exn + bool) \<times> 'c" where
  "on_value cmp c p q = cmp c (snd p) (snd q)"

text \<open>
  What a call \<open>merge_nodes cmp a b\<close> in the world \<open>w\<close> has done when it ends with
  \<open>res\<close> in \<open>w'\<close>, where \<open>sres\<close> is what \<open>spec_merge\<close> gives for the trees \<open>ta\<close>
  and \<open>tb\<close> at \<open>a\<close> and \<open>b\<close>: nothing but the nodes and the comparison's state
  has changed; on a failure the nodes are as before; on success the result
  points to the merged tree, only nodes of the two trees were written, and no
  node was created, freed or given another value.
\<close>

definition merge_post ::
  "('a, 'c) world \<Rightarrow> (addr \<times> 'a) tree \<Rightarrow> (addr \<times> 'a) tree \<Rightarrow> (exn + (addr \<times> 'a) tree) \<times> 'c
     \<Rightarrow> exn + addr option \<Rightarrow> ('a, 'c) world \<Rightarrow> bool" where
  "merge_post w ta tb sres res w' =
     (w'\<lparr>nodes := nodes w\<rparr> = w\<lparr>cstate := snd sres\<rparr> \<and>
      (case fst sres of
         Inl e \<Rightarrow> res = Inl e \<and> nodes w' = nodes w
       | Inr t \<Rightarrow> \<exists>r. res = Inr r \<and> tree_at (nodes w') r t \<and>
           (\<forall>p. p \<notin> set (addrs ta @ addrs tb) \<longrightarrow> nodes w' p = nodes w p) \<and>
           (\<forall>p. map_option value (nodes w' p) = map_option value (nodes w p))))"

section \<open>Invariants\<close>

text \<open>
  A queue is consistent in a world when its root points to a tree without
  sharing and its count is the number of nodes of that tree.
\<close>

definition queue_inv ::
  "('a, 'c) world \<Rightarrow> ('a, 'c) priority_queue \<Rightarrow> (addr \<times> 'a) tree \<Rightarrow> bool" where
  "queue_inv w q t = (owned_tree (nodes w) (root q) t \<and> elementCount q = size t)"

text \<open>
  \<open>world_inv T w\<close>: every live queue \<open>i\<close> is consistent with the tree \<open>T i\<close>, no
  two live queues share a node, and the storage from \<open>brk\<close> on is unused.
\<close>

definition world_inv :: "(nat \<Rightarrow> (addr \<times> 'a) tree) \<Rightarrow> ('a, 'c) world \<Rightarrow> bool" where
  "world_inv T w =
     ((\<forall>i q. queues w i = Some q \<longrightarrow> queue_inv w q (T i)) \<and>
      (\<forall>i j. i \<noteq> j \<longrightarrow> queues w i \<noteq> None \<longrightarrow> queues w j \<noteq> None \<longrightarrow>
         set (addrs (T i)) \<inter> set (addrs (T j)) = {}) \<and>
      (\<forall>p. brk w \<le> p \<longrightarrow> nodes w p = None))"

text \<open>
  The surroundings of the queues: the state of the comparison, the outcomes of
  the allocations to come and the next free address.
\<close>

definition with_env ::
  "'c \<Rightarrow> exn option list \<Rightarrow> exn option list \<Rightarrow> addr \<Rightarrow> ('a, 'c) world \<Rightarrow> ('a, 'c) world" where
  "with_env c nf af k w = w\<lparr>cstate := c, node_faults := nf, array_faults := af, brk := k\<rparr>"

text \<open>From the states in \<open>G\<close> the comparison never throws, and it stays in \<open>G\<close>.\<close>

definition never_fails :: "('a, 'c) compare \<Rightarrow> 'c set \<Rightarrow> bool" where
  "never_fails cmp G =
     (\<forall>c \<in> G. \<forall>x y. case cmp c x y of (Inl e, c') \<Rightarrow> False | (Inr b, c') \<Rightarrow> c' \<in> G)"



section \<open>What clear\_nodes and clone\_nodes have done\<close>

text \<open>
  \<open>forest_at h ps ts\<close>: the pointers \<open>ps\<close> of the work stack are the roots of
  the trees \<open>ts\<close>, which share no node.
\<close>

definition forest_at :: "(addr \<Rightarrow> 'a Node option) \<Rightarrow> addr list \<Rightarrow> (addr \<times> 'a) tree list \<Rightarrow> bool" where
  "forest_at h ps ts = (list_all2 (\<lambda>p t. tree_at h (Some p) t) ps ts \<and> distinct (concat (map addrs ts)))"

definition clear_post ::
  "('a, 'c) world \<Rightarrow> addr set \<Rightarrow> exn + unit \<Rightarrow> ('a, 'c) world \<Rightarrow> bool" where
  "clear_post w A r w' =
     (queues w' = queues w \<and> cstate w' = cstate w \<and> node_faults w' = node_faults w \<and>
      brk w' = brk w \<and>
      (\<forall>p. p \<notin> A \<longrightarrow> nodes w' p = nodes w p) \<and>
      (\<forall>p. nodes w' p = None \<or> nodes w' p = nodes w p) \<and>
      (r = Inr () \<longrightarrow> (\<forall>p \<in> A. nodes w' p = None)) \<and>
      ((\<forall>x \<in> set (array_faults w). x = None) \<longrightarrow>
         r = Inr () \<and> (\<forall>x \<in> set (array_faults w'). x = None)))"

fun child_trees :: "'b tree \<Rightarrow> 'b tree list" where
  "child_trees Leaf = []"
| "child_trees (Br l x r) = [Br l x r]"

definition no_array_fault :: "('a, 'c) world \<Rightarrow> bool" where
  "no_array_fault w = (\<forall>x \<in> set (array_faults w). x = None)"

definition clone_post ::
  "('a, 'c) world \<Rightarrow> (addr \<times> 'a) tree \<Rightarrow> exn + addr option \<Rightarrow> ('a, 'c) world \<Rightarrow> bool" where
  "clone_post w t r w' =
     (queues w' = queues w \<and> cstate w' = cstate w \<and> brk w \<le> brk w' \<and>
      (\<forall>p. brk w' \<le> p \<longrightarrow> nodes w' p = None) \<and>
      (\<forall>p. p < brk w \<longrightarrow> nodes w' p = nodes w p) \<and>
      (no_array_fault w \<longrightarrow> no_array_fault w') \<and>
      (case r of
         Inr c \<Rightarrow> \<exists>t'. tree_at (nodes w') c t' \<and> distinct (addrs t') \<and>
                    map_tree snd t' = map_tree snd t \<and> set (addrs t') = {brk w ..< brk w'}
       | Inl e \<Rightarrow> no_array_fault w \<longrightarrow> (\<forall>p. brk w \<le> p \<longrightarrow> nodes w' p = None)))"

section \<open>Heap order and reachable worlds\<close>

text \<open>
  The heap-order invariant for a relation \<open>lt\<close>, read as is ordered below: no
  node is ordered below one of its children. \<open>child_ok lt x t\<close> looks at the root of a
  subtree \<open>t\<close> under a node that holds \<open>x\<close>.
\<close>

fun child_ok :: "('a \<Rightarrow> 'a \<Rightarrow> bool) \<Rightarrow> 'a \<Rightarrow> (addr \<times> 'a) tree \<Rightarrow> bool" where
  "child_ok lt x Leaf = True"
| "child_ok lt x (Br l (q, y) r) = (\<not> lt x y)"

fun heap_ordered :: "('a \<Rightarrow> 'a \<Rightarrow> bool) \<Rightarrow> (addr \<times> 'a) tree \<Rightarrow> bool" where
  "heap_ordered lt Leaf = True"
| "heap_ordered lt (Br l (p, x) r) =
     (child_ok lt x l \<and> child_ok lt x r \<and> heap_ordered lt l \<and> heap_ordered lt r)"

text \<open>
  The comparison \<open>cmp\<close> decides the relation \<open>lt\<close>: in whatever state it is
  called, when it returns its answer is \<open>lt x y\<close>. It may still throw.
\<close>

definition agrees :: "('a, 'c) compare \<Rightarrow> ('a \<Rightarrow> 'a \<Rightarrow> bool) \<Rightarrow> bool" where
  "agrees cmp lt = (\<forall>c x y. case cmp c x y of (Inl e, c') \<Rightarrow> True | (Inr b, c') \<Rightarrow> b = lt x y)"

text \<open>
  A strict weak ordering is irreflexive and transitive, and so is its
  incomparability; it is then asymmetric.
\<close>

definition asymmetric :: "('a \<Rightarrow> 'a \<Rightarrow> bool) \<Rightarrow> bool" where
  "asymmetric lt = (\<forall>x y. lt x y \<longrightarrow> \<not> lt y x)"

definition strict_weak_order :: "('a \<Rightarrow> 'a \<Rightarrow> bool) \<Rightarrow> bool" where
  "strict_weak_order lt =
     ((\<forall>x. \<not> lt x x) \<and>
      (\<forall>x y z. lt x y \<longrightarrow> lt y z \<longrightarrow> lt x z) \<and>
      (\<forall>x y z. \<not> lt x y \<and> \<not> lt y x \<and> \<not> lt y z \<and> \<not> lt z y \<longrightarrow> \<not> lt x z \<and> \<not> lt z x))"

text \<open>
  \<open>ordered_world dflt lt T w\<close>: every live queue holds the comparison \<open>dflt\<close>
  and its tree \<open>T i\<close> is heap-ordered.
\<close>

definition ordered_world ::
  "('a, 'c) compare \<Rightarrow> ('a \<Rightarrow> 'a \<Rightarrow> bool) \<Rightarrow> (nat \<Rightarrow> (addr \<times> 'a) tree) \<Rightarrow> ('a, 'c) world \<Rightarrow> bool" where
  "ordered_world dflt lt T w =
     (\<forall>i q. queues w i = Some q \<longrightarrow> comp q = dflt \<and> heap_ordered lt (T i))"

text \<open>
  The worlds a program can be in. It starts with no queue and no node; between
  two calls the surroundings may change (the state of the comparison, the
  outcomes of the allocations to come, storage taken by others); and every call
  of the interface that returns normally leads to the next world.
\<close>

inductive reachable :: "('a, 'c) compare \<Rightarrow> ('a, 'c) world \<Rightarrow> bool" for dflt where
  start: "reachable dflt
            \<lparr>nodes = (\<lambda>p. None), queues = (\<lambda>i. None), cstate = c, node_faults = nf,
             array_faults = af, brk = k\<rparr>"
| env: "reachable dflt w \<Longrightarrow> brk w \<le> k \<Longrightarrow> reachable dflt (with_env c nf af k w)"
| call: "reachable dflt w \<Longrightarrow> exec dflt cl w = Some (Inr (), w') \<Longrightarrow> reachable dflt w'"

text \<open>
  \<open>inv_after dflt lt T w w'\<close>: the world \<open>w'\<close> is consistent for some trees, and
  they are heap-ordered when those of \<open>w\<close> were and the comparison decides an
  asymmetric relation.
\<close>

definition inv_after ::
  "('a, 'c) compare \<Rightarrow> ('a \<Rightarrow> 'a \<Rightarrow> bool) \<Rightarrow> (nat \<Rightarrow> (addr \<times> 'a) tree) \<Rightarrow> ('a, 'c) world
     \<Rightarrow> ('a, 'c) world \<Rightarrow> bool" where
  "inv_after dflt lt T w w' =
     (\<exists>T'. world_inv T' w' \<and>
        (agrees dflt lt \<and> asymmetric lt \<and> ordered_world dflt lt T w \<longrightarrow> ordered_world dflt lt T' w'))"

section \<open>Examples\<close>

text \<open>A comparison that never fails: \<^verbatim>\<open>std::less<int>\<close>.\<close>

definition less_cmp :: "(int, unit) compare" where
  "less_cmp c x y = (Inr (x < y), c)"

text \<open>Two one-node trees, holding 5 at address 0 and 8 at address 1.\<close>

definition two_nodes :: "(int, unit) world" where
  "two_nodes =
     \<lparr>nodes = [0 \<mapsto> \<lparr>value = 5, left = None, right = None\<rparr>,
               1 \<mapsto> \<lparr>value = 8, left = None, right = None\<rparr>],
      queues = (\<lambda>i. None), cstate = (), node_faults = [], array_faults = [], brk = 2\<rparr>"



text \<open>Two queues: queue 0 holds 5, queue 1 holds 8.\<close>

definition two_queues :: "(int, unit) world" where
  "two_queues =
     two_nodes\<lparr>queues := [0 \<mapsto> \<lparr>root = Some 0, elementCount = 1, comp = less_cmp\<rparr>,
                          1 \<mapsto> \<lparr>root = Some 1, elementCount = 1, comp = less_cmp\<rparr>]\<rparr>"

text \<open>The world of \<open>two_queues\<close> after queue 1 has been merged into queue 0.\<close>

definition merged_queues :: "(int, unit) world" where
  "merged_queues =
     two_queues\<lparr>nodes := [0 \<mapsto> \<lparr>value = 5, left = None, right = None\<rparr>,
                          1 \<mapsto> \<lparr>value = 8, left = Some 0, right = None\<rparr>],
                queues := [0 \<mapsto> \<lparr>root = Some 1, elementCount = 2, comp = less_cmp\<rparr>,
                           1 \<mapsto> \<lparr>root = None, elementCount = 0, comp = less_cmp\<rparr>]\<rparr>"

text \<open>
  A queue of two nodes that is about to be copied when memory runs out: the
  first \<^verbatim>\<open>new Node\<close> succeeds, the second throws \<^verbatim>\<open>std::bad_alloc\<close>
  (\<open>foreign 1\<close>), and so does the \<^verbatim>\<open>new Node*[1024]\<close> of \<^verbatim>\<open>clear_nodes\<close>.
\<close>

definition leak_world :: "(int, unit) world" where
  "leak_world =
     \<lparr>nodes = [0 \<mapsto> \<lparr>value = 5, left = Some 1, right = None\<rparr>,
               1 \<mapsto> \<lparr>value = 3, left = None, right = None\<rparr>],
      queues = [0 \<mapsto> \<lparr>root = Some 0, elementCount = 2, comp = less_cmp\<rparr>],
      cstate = (), node_faults = [None, Some (foreign 1)], array_faults = [Some (foreign 1)],
      brk = 2\<rparr>"

text \<open>The two queues of \<open>two_queues\<close>, with the next \<^verbatim>\<open>new Node\<close> throwing.\<close>

definition assign_world :: "(int, unit) world" where
  "assign_world = with_env () [Some (foreign 1)] [] 2 two_queues"

text \<open>
  The world after \<^verbatim>\<open>priority_queue<int> q; q.push(5); q.push(8);\<close>, the queue
  \<open>q\<close> at address 0.
\<close>

definition pushed_5_8 :: "(int, unit) world" where
  "pushed_5_8 =
     \<lparr>nodes = [0 \<mapsto> \<lparr>value = 5, left = None, right = None\<rparr>,
               1 \<mapsto> \<lparr>value = 8, left = Some 0, right = None\<rparr>],
      queues = [0 \<mapsto> \<lparr>root = Some 1, elementCount = 2, comp = less_cmp\<rparr>],
      cstate = (), node_faults = [], array_faults = [], brk = 2\<rparr>"

text \<open>
  The queue of \<open>2 * n\<close> elements that the pushes of 2, 1, 4, 3, \<dots>,
  \<open>2 * n\<close>, \<open>2 * n - 1\<close> build in this order with \<^verbatim>\<open>std::less<int>\<close>, the
  \<open>k\<close>-th node allocated at address \<open>k - 1\<close>. Its tree is a comb: the nodes
  at the even addresses form a chain of right children from the root at
  \<open>2 * n - 2\<close> down to address 0, and each has on its left a leaf, at the next
  odd address. \<open>comb_half n\<close> is the world between the two pushes of a pair.
  Queue 1 is a second, empty queue.
\<close>

definition comb_node :: "addr \<Rightarrow> int Node" where
  "comb_node p =
     (if even p then
        \<lparr>value = int p + 2, left = Some (p + 1), right = (if p = 0 then None else Some (p - 2))\<rparr>
      else \<lparr>value = int p, left = None, right = None\<rparr>)"

definition comb :: "nat \<Rightarrow> (int, unit) world" where
  "comb n =
     \<lparr>nodes = (\<lambda>p. if p < 2 * n then Some (comb_node p) else None),
      queues = [0 \<mapsto> \<lparr>root = (if n = 0 then None else Some (2 * n - 2)), elementCount = 2 * n,
                       comp = less_cmp\<rparr>,
                1 \<mapsto> \<lparr>root = None, elementCount = 0, comp = less_cmp\<rparr>],
      cstate = (), node_faults = [], array_faults = [], brk = 2 * n\<rparr>"

definition comb_half :: "nat \<Rightarrow> (int, unit) world" where
  "comb_half n =
     \<lparr>nodes = (\<lambda>p. if p < 2 * n then Some (comb_node p)
                   else if p = 2 * n then
                     Some \<lparr>value = int p + 2,
                           left = (if n = 0 then None else Some (2 * n - 2)), right = None\<rparr>
                   else None),
      queues = [0 \<mapsto> \<lparr>root = Some (2 * n), elementCount = 2 * n + 1, comp = less_cmp\<rparr>,
                1 \<mapsto> \<lparr>root = None, elementCount = 0, comp = less_cmp\<rparr>],
      cstate = (), node_faults = [], array_faults = [], brk = 2 * n + 1\<rparr>"

text \<open>
  The comb of 2048 elements when memory is short: the first \<^verbatim>\<open>new Node*[cap]\<close>
  to come succeeds and the second throws \<^verbatim>\<open>std::bad_alloc\<close> (\<open>foreign 1\<close>).
  \<open>torn_world\<close> is that world with the nodes at the even addresses above 2
  freed.
\<close>

definition comb_world :: "(int, unit) world" where
  "comb_world = with_env () [] [None, Some (foreign 1)] 2048 (comb 1024)"

definition torn_nodes :: "addr \<Rightarrow> int Node option" where
  "torn_nodes p = (if p < 2048 \<and> \<not> (even p \<and> 2 < p) then Some (comb_node p) else None)"

definition torn_world :: "(int, unit) world" where
  "torn_world = comb_world\<lparr>nodes := torn_nodes, array_faults := []\<rparr>"

section \<open>Properties of merge\_nodes\<close>

lemma tree_at_frame:
  "tree_at h p t \<Longrightarrow> (\<forall>q \<in> set (addrs t). h' q = h q) \<Longrightarrow> tree_at h' p t"
proof (induction h p t rule: tree_at.induct)
  case (2 h p l q x r)
  then show ?case by (auto simp: addrs_def split: option.splits)
qed (auto simp: addrs_def)

lemma tree_at_Some:
  "tree_at h (Some p) t \<longleftrightarrow>
     (\<exists>l x r n. t = Br l (p, x) r \<and> h p = Some n \<and> value n = x \<and> tree_at h (left n) l \<and> tree_at h (right n) r)"
  by (cases t) (auto split: option.splits)

lemma tree_at_None [simp]: "tree_at h None t \<longleftrightarrow> t = Leaf"
  by (cases t) auto

lemma tree_at_Leaf [simp]: "tree_at h p Leaf \<longleftrightarrow> p = None"
  by (cases p) auto

lemma tree_at_Br:
  "tree_at h p (Br l (q, x) r) \<longleftrightarrow>
     (p = Some q \<and> (\<exists>n. h q = Some n \<and> value n = x \<and> tree_at h (left n) l \<and> tree_at h (right n) r))"
  by (cases p) (auto split: option.splits)

lemma addrs_simps [simp]:
  "addrs Leaf = []" "addrs (Br l (p, x) r) = p # addrs l @ addrs r"
  by (simp_all add: addrs_def)

lemma spec_merge_labels:
  "spec_merge cmp c a b = (Inr t, c') \<Longrightarrow> mset (labels t) = mset (labels a) + mset (labels b)"
proof (induction cmp c a b arbitrary: t c' rule: spec_merge.induct)
  case (3 cmp c l1 x r1 l2 y r2)
  then show ?case
    by (auto split: prod.splits sum.splits if_splits)
qed auto

lemma spec_merge_addrs:
  "spec_merge cmp c a b = (Inr t, c') \<Longrightarrow> set (addrs t) = set (addrs a) \<union> set (addrs b)"
  using spec_merge_labels[of cmp c a b t c', THEN arg_cong, of "\<lambda>m. fst ` set_mset m"] 
  by (simp add: addrs_def image_Un)

lemma world_nodes_same [simp]: "w\<lparr>nodes := nodes w\<rparr> = w"
  by simp

lemma guard_restore_same:
  "nodes w p = Some n \<Longrightarrow>
   MergeGuard_dtor \<lparr>node = Some p, origLeft = left n, origRight = right n, active = True\<rparr> w = Some w"
  by (simp add: MergeGuard_dtor_def set_left_def set_right_def fun_upd_idem)

lemma install_and_swap_eq: 
  "nodes w a = Some n \<Longrightarrow>
   install_and_swap a nr w = Some (w\<lparr>nodes := (nodes w)(a \<mapsto> n\<lparr>left := nr, right := left n\<rparr>)\<rparr>)"
  by (simp add: install_and_swap_def set_left_def set_right_def)

lemma bind_Some_map: "Option.bind m (\<lambda>x. Some (f x)) = map_option f m"
  by (cases m) auto

lemma merge_nodes_winner:
  assumes "nodes w pa = Some na" "nodes w pb = Some nb"
    "cmp (cstate w) (value na) (value nb) = (Inr below, c1)"
    "a' = (if below then pb else pa)" "b' = (if below then pa else pb)" "nodes w a' = Some n"
    "merge_nodes cmp (right n) (Some b') (w\<lparr>cstate := c1\<rparr>) = Some (r, w2)"
  shows "merge_nodes cmp (Some pa) (Some pb) w =
     (case r of
        Inl e \<Rightarrow> map_option (Pair (Inl e))
          (MergeGuard_dtor \<lparr>node = Some a', origLeft = left n, origRight = right n, active = True\<rparr> w2)
      | Inr newRight \<Rightarrow> map_option (Pair (Inr (Some a'))) (install_and_swap a' newRight w2))"
  using assms
  apply (subst merge_nodes.simps)
  apply (simp add: MergeGuard_ctor_def Let_def commit_def MergeGuard_dtor_def split: sum.splits)
  apply (auto simp: bind_Some_map)
  done

lemma merge_winner_step:
  assumes W: "nodes w pw = Some nw" "tree_at (nodes w) (left nw) lw" "tree_at (nodes w) (right nw) rw"
    and L: "tree_at (nodes w) (Some pl) tlo"
    and D: "distinct (pw # addrs lw @ addrs rw @ addrs tlo)"
    and S: "set (addrs ta @ addrs tb) = set (pw # addrs lw @ addrs rw @ addrs tlo)"
    and R: "merge_post (w\<lparr>cstate := c1\<rparr>) rw tlo (spec_merge f c1 rw tlo) res w2"
  shows "\<exists>res' w'.
     (case res of
        Inl e \<Rightarrow> map_option (Pair (Inl e))
          (MergeGuard_dtor \<lparr>node = Some pw, origLeft = left nw, origRight = right nw, active = True\<rparr> w2)
      | Inr newRight \<Rightarrow> map_option (Pair (Inr (Some pw))) (install_and_swap pw newRight w2))
       = Some (res', w') \<and>
     merge_post w ta tb
       (case spec_merge f c1 rw tlo of
          (Inl e, c2) \<Rightarrow> (Inl e, c2)
        | (Inr m, c2) \<Rightarrow> (Inr (swap_children (Br lw (pw, value nw) m)), c2)) res' w'"
proof -
  obtain sr c2 where sm: "spec_merge f c1 rw tlo = (sr, c2)" by (cases "spec_merge f c1 rw tlo")
  have rest: "w2\<lparr>nodes := nodes w\<rparr> = w\<lparr>cstate := c2\<rparr>"
    using R sm by (simp add: merge_post_def)
  show ?thesis
  proof (cases sr)
    case (Inl e)
    with R sm have res: "res = Inl e" and same: "nodes w2 = nodes w"
      by (auto simp: merge_post_def)
    have "w2 = w\<lparr>cstate := c2\<rparr>" using rest same by (metis world_nodes_same)
    then show ?thesis using res sm Inl W(1) same
      by (simp add: guard_restore_same merge_post_def)
  next
    case (Inr m)
    with R sm obtain nr where res: "res = Inr nr" and m: "tree_at (nodes w2) nr m"
      and fr: "\<forall>p. p \<notin> set (addrs rw @ addrs tlo) \<longrightarrow> nodes w2 p = nodes w p"
      and vals: "\<forall>p. map_option value (nodes w2 p) = map_option value (nodes w p)"
      by (auto simp: merge_post_def)
    have am: "set (addrs m) = set (addrs rw) \<union> set (addrs tlo)"
      using spec_merge_addrs[OF sm[unfolded Inr]] .
    have pw2: "nodes w2 pw = Some nw" using fr D W(1) by auto
    let ?h = "(nodes w2)(pw \<mapsto> nw\<lparr>left := nr, right := left nw\<rparr>)"
    have t1: "tree_at ?h nr m"
      using m D am by (intro tree_at_frame[OF m]) auto
    have t2': "tree_at (nodes w2) (left nw) lw"
      using D fr by (intro tree_at_frame[OF W(2)]) auto
    have t2: "tree_at ?h (left nw) lw"
      using D by (intro tree_at_frame[OF t2']) auto
    have tr: "tree_at ?h (Some pw) (Br m (pw, value nw) lw)"
      using t1 t2 by simp
    have fr': "\<forall>p. p \<notin> set (addrs ta @ addrs tb) \<longrightarrow> ?h p = nodes w p"
      using fr S by auto
    have vals': "\<forall>p. map_option value (?h p) = map_option value (nodes w p)"
      using vals W(1) by auto
    show ?thesis
      using res sm Inr pw2 tr fr' vals' rest
      by (simp add: install_and_swap_eq merge_post_def)
  qed
qed

lemma merge_nodes_refines_aux:
  "tree_at (nodes w) a ta \<Longrightarrow> tree_at (nodes w) b tb \<Longrightarrow> distinct (addrs ta @ addrs tb) \<Longrightarrow>
   cstate w = c \<Longrightarrow> f = on_value cmp \<Longrightarrow>
   \<exists>res w'. merge_nodes cmp a b w = Some (res, w') \<and>
      merge_post w ta tb (spec_merge f c ta tb) res w'"
proof (induction f c ta tb arbitrary: w a b rule: spec_merge.induct)
  case (1 f c tb)
  then show ?case
    by (subst merge_nodes.simps) (auto simp: merge_post_def)
next
  case (2 f c l x r)
  then show ?case
    by (subst merge_nodes.simps) (cases a; cases x; auto simp: merge_post_def)
next
  case (3 f c l1 x r1 l2 y r2)
  from "3.prems"(1) obtain pa na where a: "a = Some pa" "nodes w pa = Some na" "x = (pa, value na)"
    "tree_at (nodes w) (left na) l1" "tree_at (nodes w) (right na) r1"
    by (cases x) (auto simp: tree_at_Br)
  from "3.prems"(2) obtain pb nb where b: "b = Some pb" "nodes w pb = Some nb" "y = (pb, value nb)"
    "tree_at (nodes w) (left nb) l2" "tree_at (nodes w) (right nb) r2"
    by (cases y) (auto simp: tree_at_Br)
  obtain ro c1 where cmp: "cmp (cstate w) (value na) (value nb) = (ro, c1)"
    by (cases "cmp (cstate w) (value na) (value nb)")
  have fxy: "f c x y = (ro, c1)" using cmp "3.prems"(4,5) a(3) b(3) by (simp add: on_value_def)
  show ?case
  proof (cases ro)
    case (Inl e)
    then show ?thesis using a(1,2) b(1,2) cmp fxy
      by (subst merge_nodes.simps) (simp add: merge_post_def)
  next
    case (Inr below)
    let ?w1 = "w\<lparr>cstate := c1\<rparr>"
    have ta: "tree_at (nodes ?w1) (Some pa) (Br l1 x r1)" using "3.prems"(1) a(1) by simp
    have tb: "tree_at (nodes ?w1) (Some pb) (Br l2 y r2)" using "3.prems"(2) b(1) by simp
    show ?thesis
    proof (cases below)
      case True
      have d: "distinct (addrs r2 @ addrs (Br l1 x r1))"
        using "3.prems"(3) a(3) b(3) by auto
      have "\<exists>res w'. merge_nodes cmp (right nb) (Some pa) ?w1 = Some (res, w') \<and>
          merge_post ?w1 r2 (Br l1 x r1) (spec_merge f c1 r2 (Br l1 x r1)) res w'"
        using b(5) ta d "3.prems"(5)
        by (intro "3.IH"(1)[OF fxy[symmetric, unfolded Inr True] refl True]) simp_all
      then obtain res w2 where rec: "merge_nodes cmp (right nb) (Some pa) ?w1 = Some (res, w2)"
        and post: "merge_post ?w1 r2 (Br l1 x r1) (spec_merge f c1 r2 (Br l1 x r1)) res w2"
        by blast
      have D: "distinct (pb # addrs l2 @ addrs r2 @ addrs (Br l1 x r1))"
        using "3.prems"(3) a(3) b(3) by auto
      have S: "set (addrs (Br l1 x r1) @ addrs (Br l2 y r2)) = set (pb # addrs l2 @ addrs r2 @ addrs (Br l1 x r1))"
        using a(3) b(3) by auto
      have sm: "spec_merge f c (Br l1 x r1) (Br l2 y r2) =
         (case spec_merge f c1 r2 (Br l1 x r1) of
            (Inl e, c2) \<Rightarrow> (Inl e, c2)
          | (Inr m, c2) \<Rightarrow> (Inr (swap_children (Br l2 (pb, value nb) m)), c2))"
        using fxy Inr True b(3) by simp
      have mn: "merge_nodes cmp a b w =
         (case res of
            Inl e \<Rightarrow> map_option (Pair (Inl e))
              (MergeGuard_dtor \<lparr>node = Some pb, origLeft = left nb, origRight = right nb, active = True\<rparr> w2)
          | Inr newRight \<Rightarrow> map_option (Pair (Inr (Some pb))) (install_and_swap pb newRight w2))"
        unfolding a(1) b(1)
        using merge_nodes_winner[where cmp=cmp and w=w and pa=pa and pb=pb and na=na and nb=nb
            and below=below and ?c1.0=c1 and a'=pb and b'=pa and n=nb and r=res and ?w2.0=w2]
          a(2) b(2) cmp Inr True rec by simp
      show ?thesis
        unfolding sm mn
        by (rule merge_winner_step[OF b(2) b(4) b(5) "3.prems"(1)[unfolded a(1)] D S post])
    next
      case False
      have d: "distinct (addrs r1 @ addrs (Br l2 y r2))"
        using "3.prems"(3) a(3) b(3) by auto
      have "\<exists>res w'. merge_nodes cmp (right na) (Some pb) ?w1 = Some (res, w') \<and>
          merge_post ?w1 r1 (Br l2 y r2) (spec_merge f c1 r1 (Br l2 y r2)) res w'"
        using a(5) tb d "3.prems"(5)
        by (intro "3.IH"(2)[OF fxy[symmetric, unfolded Inr False] refl False]) simp_all
      then obtain res w2 where rec: "merge_nodes cmp (right na) (Some pb) ?w1 = Some (res, w2)"
        and post: "merge_post ?w1 r1 (Br l2 y r2) (spec_merge f c1 r1 (Br l2 y r2)) res w2"
        by blast
      have D: "distinct (pa # addrs l1 @ addrs r1 @ addrs (Br l2 y r2))"
        using "3.prems"(3) a(3) b(3) by auto
      have S: "set (addrs (Br l1 x r1) @ addrs (Br l2 y r2)) = set (pa # addrs l1 @ addrs r1 @ addrs (Br l2 y r2))"
        using a(3) b(3) by auto
      have sm: "spec_merge f c (Br l1 x r1) (Br l2 y r2) =
         (case spec_merge f c1 r1 (Br l2 y r2) of
            (Inl e, c2) \<Rightarrow> (Inl e, c2)
          | (Inr m, c2) \<Rightarrow> (Inr (swap_children (Br l1 (pa, value na) m)), c2))"
        using fxy Inr False a(3) by simp
      have mn: "merge_nodes cmp a b w =
         (case res of
            Inl e \<Rightarrow> map_option (Pair (Inl e))
              (MergeGuard_dtor \<lparr>node = Some pa, origLeft = left na, origRight = right na, active = True\<rparr> w2)
          | Inr newRight \<Rightarrow> map_option (Pair (Inr (Some pa))) (install_and_swap pa newRight w2))"
        unfolding a(1) b(1)
        using merge_nodes_winner[where cmp=cmp and w=w and pa=pa and pb=pb and na=na and nb=nb
            and below=below and ?c1.0=c1 and a'=pa and b'=pb and n=na and r=res and ?w2.0=w2]
          a(2) b(2) cmp Inr False rec by simp
      show ?thesis
        unfolding sm mn
        by (rule merge_winner_step[OF a(2) a(4) a(5) "3.prems"(2)[unfolded b(1)] D S post])
    qed
  qed
qed


lemma merge_tail_Inl:
  "(case r of
      Inl e \<Rightarrow> map_option (Pair (Inl e)) (MergeGuard_dtor g w2)
    | Inr nr \<Rightarrow> Option.bind (install_and_swap p nr w2)
         (\<lambda>w3. map_option (Pair (Inr (Some p))) (MergeGuard_dtor (commit g) w3)))
     = Some (Inl e, w') \<Longrightarrow> r = Inl e \<and> MergeGuard_dtor g w2 = Some w'"
  by (cases r) (auto split: Option.bind_splits)

lemma upto_cstate_nodes: "w2\<lparr>cstate := c\<rparr> = w\<lparr>cstate := c'\<rparr> \<Longrightarrow> nodes w2 = nodes w"
  by (cases w; cases w2) auto

lemma upto_cstate_trans:
  "w2\<lparr>cstate := c\<rparr> = w\<lparr>cstate := c\<rparr> \<Longrightarrow> w2\<lparr>cstate := cstate w\<rparr> = w"
  by (cases w; cases w2) auto

lemma merge_nodes_throw_unchanged_aux:
  "merge_nodes cmp a b w = Some y \<Longrightarrow> \<forall>e w'. y = (Inl e, w') \<longrightarrow> w'\<lparr>cstate := cstate w\<rparr> = w"
proof (induction rule: merge_nodes.raw_induct[rotated 1, consumes 1, case_names step])
  case (step mn cmp a b w y)
  note 1 = step
  show ?case
  proof (intro allI impI)
    fix e w' assume y: "y = (Inl e, w')"
    show "w'\<lparr>cstate := cstate w\<rparr> = w"
    proof (cases a)
      case None
      then show ?thesis using 1(2) y by simp
    next
      case (Some pa)
      note a = this
      show ?thesis
      proof (cases b)
        case None
        then show ?thesis using 1(2) y a by simp
      next
        case (Some pb)
        note b = this
        from 1(2) a b obtain na nb where n: "nodes w pa = Some na" "nodes w pb = Some nb"
          by (auto split: option.splits)
        obtain ro c where cmp: "cmp (cstate w) (value na) (value nb) = (ro, c)"
          by (cases "cmp (cstate w) (value na) (value nb)")
        show ?thesis
        proof (cases ro)
          case (Inl e')
          then show ?thesis using 1(2) y a b n cmp by auto
        next
          case (Inr below)
          let ?w1 = "w\<lparr>cstate := c\<rparr>"
          have "\<exists>p n' q w2. nodes w p = Some n' \<and> mn cmp (right n') q ?w1 = Some (Inl e, w2) \<and>
              MergeGuard_dtor \<lparr>node = Some p, origLeft = left n', origRight = right n', active = True\<rparr> w2 = Some w'"
            using 1(2) a b n cmp Inr y
            by (cases below) 
               (auto simp: MergeGuard_ctor_def Let_def split: Option.bind_splits dest!: merge_tail_Inl)
          then obtain p n' q w2 where n': "nodes w p = Some n'"
            and rec: "mn cmp (right n') q ?w1 = Some (Inl e, w2)"
            and fin: "MergeGuard_dtor \<lparr>node = Some p, origLeft = left n', origRight = right n', active = True\<rparr> w2 = Some w'"
            by blast
          from 1(1)[OF rec] have w2: "w2\<lparr>cstate := c\<rparr> = ?w1" by simp
          then have nw2: "nodes w2 = nodes w" by (rule upto_cstate_nodes)
          from fin n' nw2 have "w' = w2"
            by (auto simp: MergeGuard_dtor_def set_left_def set_right_def fun_upd_idem)
          then show ?thesis using w2 by (simp add: upto_cstate_trans)
        qed
      qed
    qed
  qed
qed

lemma merge_nodes_throw_unchanged:
  "merge_nodes cmp a b w = Some (Inl e, w') \<Longrightarrow> w'\<lparr>cstate := cstate w\<rparr> = w"
  using merge_nodes_throw_unchanged_aux by blast


lemma merge_nodes_refines:
  assumes "tree_at (nodes w) a ta" and "tree_at (nodes w) b tb"
    and "distinct (addrs ta @ addrs tb)"
  shows "\<exists>res w'. merge_nodes cmp a b w = Some (res, w') \<and>
           merge_post w ta tb (spec_merge (on_value cmp) (cstate w) ta tb) res w'"
  using merge_nodes_refines_aux[OF assms refl refl] .

text \<open>
  C6. For trees \<open>ta\<close> and \<open>tb\<close> in the store that share no node, \<open>merge_nodes\<close>
  returns, and it computes the skew-heap merge of the specification: it fails
  where \<open>spec_merge\<close> fails, with the same exception and the nodes untouched,
  and otherwise returns a pointer to the tree \<open>spec_merge\<close> gives, built in
  place from the nodes of the two trees.
\<close>

theorem merge_nodes_is_spec_merge:
  assumes "tree_at (nodes w) a ta" and "tree_at (nodes w) b tb"
    and "distinct (addrs ta @ addrs tb)"
  shows "\<exists>res w'. merge_nodes cmp a b w = Some (res, w') \<and>
           merge_post w ta tb (spec_merge (on_value cmp) (cstate w) ta tb) res w'"
  using merge_nodes_refines_aux[OF assms refl refl] .

theorem merge_nodes_is_spec_merge_witness:
  "tree_at (nodes two_nodes) (Some 0) (Br Leaf (0, 5) Leaf) \<and>
   tree_at (nodes two_nodes) (Some 1) (Br Leaf (1, 8) Leaf) \<and>
   distinct (addrs (Br Leaf (0, 5) Leaf) @ addrs (Br Leaf (1, 8) Leaf)) \<and>
   spec_merge (on_value less_cmp) (cstate two_nodes) (Br Leaf (0, 5) Leaf) (Br Leaf (1, 8) Leaf)
     = (Inr (Br (Br Leaf (0, 5) Leaf) (1, 8) Leaf), ()) \<and>
   (\<exists>res w'. merge_nodes less_cmp (Some 0) (Some 1) two_nodes = Some (res, w') \<and>
      merge_post two_nodes (Br Leaf (0, 5) Leaf) (Br Leaf (1, 8) Leaf)
        (spec_merge (on_value less_cmp) (cstate two_nodes) (Br Leaf (0, 5) Leaf) (Br Leaf (1, 8) Leaf))
        res w')"
proof -
  have a: "tree_at (nodes two_nodes) (Some 0) (Br Leaf (0, 5) Leaf)"
    by (simp add: two_nodes_def)
  have b: "tree_at (nodes two_nodes) (Some 1) (Br Leaf (1, 8) Leaf)"
    by (simp add: two_nodes_def)
  have d: "distinct (addrs (Br Leaf (0, 5::int) Leaf) @ addrs (Br Leaf (1, 8) Leaf))"
    by simp
  have s: "spec_merge (on_value less_cmp) (cstate two_nodes) (Br Leaf (0, 5) Leaf) (Br Leaf (1, 8) Leaf)
     = (Inr (Br (Br Leaf (0, 5) Leaf) (1, 8) Leaf), ())"
    by (simp add: on_value_def less_cmp_def)
  show ?thesis
    using a b d s merge_nodes_is_spec_merge[OF a b d, of less_cmp] by simp
qed

section \<open>The public operations: failure and success\<close>


lemma upto_cstate_fields:
  "w2\<lparr>cstate := c\<rparr> = w \<Longrightarrow>
     nodes w2 = nodes w \<and> queues w2 = queues w \<and> node_faults w2 = node_faults w \<and>
     array_faults w2 = array_faults w \<and> brk w2 = brk w"
  by (cases w; cases w2) auto

lemma push_throw:
  assumes "push this v w = Some (Inl e, w')" and "nodes w (brk w) = None"
  shows "nodes w' = nodes w \<and> queues w' = queues w"
proof -
  from assms(1) obtain q where q: "queues w this = Some q"
    by (auto simp: push_def split: option.splits)
  show ?thesis
  proof (cases "new_Node v w")
    case (Pair r w1)
    show ?thesis
    proof (cases r)
      case (Inl x)
      then show ?thesis using assms(1) q Pair
        by (auto simp: push_def new_Node_def split: list.splits option.splits)
    next
      case (Inr nodep)
      with Pair have w1: "nodep = brk w" "nodes w1 = (nodes w)(brk w \<mapsto> \<lparr>value = v, left = None, right = None\<rparr>)"
        "queues w1 = queues w"
        by (auto simp: new_Node_def split: list.splits option.splits)
      from assms(1) q Pair Inr obtain x w2 where
        m: "merge_nodes (comp q) (root q) (Some nodep) w1 = Some (Inl x, w2)"
        and fin: "Option.bind (set_right nodep None w2)
               (\<lambda>w3. Option.bind (set_left nodep None w3) (delete_Node nodep)) = Some w'"
        by (auto simp: push_def split: option.splits sum.splits)
      from upto_cstate_fields[OF merge_nodes_throw_unchanged[OF m]]
      have w2: "nodes w2 = nodes w1" "queues w2 = queues w1"
        by simp_all
      from fin w2 w1 assms(2) show ?thesis
        by (auto simp: set_right_def set_left_def delete_Node_def split: Option.bind_splits option.splits)
    qed
  qed
qed

lemma pop_throw:
  assumes "pop this w = Some (Inl e, w')"
  shows "nodes w' = nodes w \<and> queues w' = queues w"
  using assms
  by (auto simp: pop_def empty_pq_def Let_def split: option.splits bool.splits sum.splits Option.bind_splits if_splits
      dest!: merge_nodes_throw_unchanged upto_cstate_fields)

lemma merge_pq_throw:
  assumes "merge_pq this other w = Some (Inl e, w')"
  shows "nodes w' = nodes w \<and> queues w' = queues w"
  using assms
  by (auto simp: merge_pq_def split: option.splits sum.splits if_splits
      dest!: merge_nodes_throw_unchanged upto_cstate_fields)


lemma length_labels: "length (labels t) = size t"
  by (induction t) auto

lemma spec_merge_size:
  assumes "spec_merge f c a b = (Inr t, c')"
  shows "size t = size a + size b"
  using spec_merge_labels[OF assms, THEN arg_cong, of size] by (simp add: length_labels)

lemma spec_merge_addrs_mset:
  "spec_merge f c a b = (Inr t, c') \<Longrightarrow> mset (addrs t) = mset (addrs a) + mset (addrs b)"
  using spec_merge_labels[of f c a b t c', THEN arg_cong, of "image_mset fst"]
  by (simp add: addrs_def)

lemma spec_merge_elems_mset:
  "spec_merge f c a b = (Inr t, c') \<Longrightarrow> mset (elems t) = mset (elems a) + mset (elems b)"
  using spec_merge_labels[of f c a b t c', THEN arg_cong, of "image_mset snd"]
  by (simp add: elems_def)

lemma spec_merge_distinct:
  assumes "spec_merge f c a b = (Inr t, c')" "distinct (addrs a @ addrs b)"
  shows "distinct (addrs t)"
proof -
  have "mset (addrs t) = mset (addrs a @ addrs b)"
    using spec_merge_addrs_mset[OF assms(1)] by simp
  then show ?thesis using assms(2) by (metis mset_eq_imp_distinct_iff)
qed

lemma spec_merge_never_fails_aux:
  "\<forall>c \<in> G. \<forall>x y. (case f c x y of (Inl e, c') \<Rightarrow> False | (Inr b, c') \<Rightarrow> c' \<in> G) \<Longrightarrow>
   c \<in> G \<Longrightarrow> \<exists>t c'. spec_merge f c a b = (Inr t, c') \<and> c' \<in> G"
proof (induction f c a b rule: spec_merge.induct)
  case (3 f c l1 x r1 l2 y r2)
  from "3.prems"(1)[rule_format, OF "3.prems"(2), of x y] obtain below c1 where f: "f c x y = (Inr below, c1)" and c1: "c1 \<in> G"
    by (cases "f c x y"; cases "fst (f c x y)") auto
  show ?case
  proof (cases below)
    case True
    from "3.IH"(1)[OF f[symmetric] refl True "3.prems"(1) c1] f True show ?thesis by auto
  next
    case False
    from "3.IH"(2)[OF f[symmetric] refl False "3.prems"(1) c1] f False show ?thesis by auto
  qed
qed auto

lemma spec_merge_never_fails:
  assumes "never_fails cmp G" "c \<in> G"
  shows "\<exists>t c'. spec_merge (on_value cmp) c a b = (Inr t, c') \<and> c' \<in> G"
  using assms by (intro spec_merge_never_fails_aux) (auto simp: never_fails_def on_value_def)

lemma merge_pq_effect:
  assumes ne: "this \<noteq> other" and qa: "queues w this = Some qa" and qb: "queues w other = Some qb"
    and ia: "queue_inv w qa ta" and ib: "queue_inv w qb tb"
    and dj: "set (addrs ta) \<inter> set (addrs tb) = {}"
  shows "\<exists>r w'. merge_pq this other w = Some (r, w') \<and>
     w'\<lparr>nodes := nodes w, queues := queues w\<rparr> = w\<lparr>cstate := snd (spec_merge (on_value (comp qa)) (cstate w) ta tb)\<rparr> \<and>
     (case fst (spec_merge (on_value (comp qa)) (cstate w) ta tb) of
        Inl e \<Rightarrow> r = Inl (rethrown e) \<and> nodes w' = nodes w \<and> queues w' = queues w
      | Inr t \<Rightarrow> r = Inr () \<and>
          (\<exists>p. queues w' = (queues w)
                 (this \<mapsto> qa\<lparr>root := p, elementCount := elementCount qa + elementCount qb\<rparr>,
                  other \<mapsto> qb\<lparr>root := None, elementCount := 0\<rparr>) \<and>
               tree_at (nodes w') p t) \<and>
          (\<forall>p. p \<notin> set (addrs ta @ addrs tb) \<longrightarrow> nodes w' p = nodes w p) \<and>
          (\<forall>p. map_option value (nodes w' p) = map_option value (nodes w p)))"
proof -
  have d: "distinct (addrs ta @ addrs tb)"
    using ia ib dj by (auto simp: queue_inv_def owned_tree_def)
  from ia ib have t: "tree_at (nodes w) (root qa) ta" "tree_at (nodes w) (root qb) tb"
    by (auto simp: queue_inv_def owned_tree_def)
  from merge_nodes_refines[OF t d, of "comp qa"]
  obtain res w1 where m: "merge_nodes (comp qa) (root qa) (root qb) w = Some (res, w1)"
    and post: "merge_post w ta tb (spec_merge (on_value (comp qa)) (cstate w) ta tb) res w1"
    by blast
  obtain sr c' where sm: "spec_merge (on_value (comp qa)) (cstate w) ta tb = (sr, c')"
    by (cases "spec_merge (on_value (comp qa)) (cstate w) ta tb")
  from post sm have rest: "w1\<lparr>nodes := nodes w\<rparr> = w\<lparr>cstate := c'\<rparr>"
    by (simp add: merge_post_def)
  then have q1: "queues w1 = queues w" by (metis world.select_convs(2) world.surjective world.update_convs(1) world.update_convs(3))
  show ?thesis
  proof (cases sr)
    case (Inl e)
    with post sm have "res = Inl e" "nodes w1 = nodes w" by (auto simp: merge_post_def)
    then show ?thesis using ne qa qb m sm Inl rest q1
      by (simp add: merge_pq_def)
  next
    case (Inr t)
    with post sm obtain p where "res = Inr p" "tree_at (nodes w1) p t"
      "\<forall>p. p \<notin> set (addrs ta @ addrs tb) \<longrightarrow> nodes w1 p = nodes w p"
      "\<forall>p. map_option value (nodes w1 p) = map_option value (nodes w p)"
      by (auto simp: merge_post_def)
    then show ?thesis using ne qa qb m sm Inr rest q1
      apply (simp add: merge_pq_def)
      apply (cases w; cases w1)
      apply auto
      done
  qed
qed

lemma tree_at_live: "tree_at h p t \<Longrightarrow> a \<in> set (addrs t) \<Longrightarrow> h a \<noteq> None"
  by (induction h p t rule: tree_at.induct) (auto simp: addrs_def split: option.splits)

lemma merge_post_fields:
  "merge_post w ta tb sres res w' \<Longrightarrow>
     queues w' = queues w \<and> node_faults w' = node_faults w \<and> array_faults w' = array_faults w \<and>
     brk w' = brk w \<and> cstate w' = snd sres"
  by (cases w; cases w') (auto simp: merge_post_def)

lemma push_effect:
  assumes q: "queues w this = Some q" and i: "queue_inv w q t0"
    and fresh: "\<forall>p. brk w \<le> p \<longrightarrow> nodes w p = None"
  shows "\<exists>r w'. push this v w = Some (r, w') \<and>
     (case node_faults w of
        Some x # rest \<Rightarrow> r = Inl (rethrown x) \<and> nodes w' = nodes w \<and> queues w' = queues w \<and> brk w' = brk w
      | _ \<Rightarrow>
        brk w' = Suc (brk w) \<and>
        (case fst (spec_merge (on_value (comp q)) (cstate w) t0 (Br Leaf (brk w, v) Leaf)) of
           Inl e \<Rightarrow> r = Inl (rethrown e) \<and> nodes w' = nodes w \<and> queues w' = queues w
         | Inr t \<Rightarrow> r = Inr () \<and>
             (\<exists>p. queues w' = (queues w)(this \<mapsto> q\<lparr>root := p, elementCount := elementCount q + 1\<rparr>) \<and>
                  tree_at (nodes w') p t) \<and>
             (\<forall>p. p \<notin> set (addrs t0) \<and> p \<noteq> brk w \<longrightarrow> nodes w' p = nodes w p) \<and>
             (\<forall>p. p \<noteq> brk w \<longrightarrow> map_option value (nodes w' p) = map_option value (nodes w p))))"
proof (cases "\<exists>x rest. node_faults w = Some x # rest")
  case True
  then show ?thesis using q
    by (auto simp: push_def new_Node_def)
next
  case False
  let ?k = "brk w"
  let ?N = "\<lparr>value = v, left = None, right = None\<rparr>"
  let ?w1 = "w\<lparr>nodes := (nodes w)(?k \<mapsto> ?N), node_faults := tl (node_faults w), brk := Suc ?k\<rparr>"
  let ?tn = "Br Leaf (?k, v) Leaf"
  have nn: "new_Node v w = (Inr ?k, ?w1)"
    using False by (auto simp: new_Node_def split: list.splits option.splits)
  have nf: "(case node_faults w of Some x # rest \<Rightarrow> P x rest | _ \<Rightarrow> Q) = Q" for P and Q :: bool
    using False by (auto split: list.splits option.splits)
  from i have t0: "tree_at (nodes w) (root q) t0" and d0: "distinct (addrs t0)"
    by (auto simp: queue_inv_def owned_tree_def)
  have k0: "?k \<notin> set (addrs t0)"
    using tree_at_live[OF t0, of ?k] fresh by force
  have t1: "tree_at (nodes ?w1) (root q) t0"
    using k0 by (intro tree_at_frame[OF t0]) auto
  have tn: "tree_at (nodes ?w1) (Some ?k) ?tn" by simp
  have d: "distinct (addrs t0 @ addrs ?tn)" using d0 k0 by simp
  from merge_nodes_refines[OF t1 tn d, of "comp q"]
  obtain res w2 where m: "merge_nodes (comp q) (root q) (Some ?k) ?w1 = Some (res, w2)"
    and post: "merge_post ?w1 t0 ?tn (spec_merge (on_value (comp q)) (cstate w) t0 ?tn) res w2"
    by auto
  note f2 = merge_post_fields[OF post]
  obtain sr c' where sm: "spec_merge (on_value (comp q)) (cstate w) t0 ?tn = (sr, c')"
    by (cases "spec_merge (on_value (comp q)) (cstate w) t0 ?tn")
  show ?thesis
  proof (cases sr)
    case (Inl e)
    with post sm have r: "res = Inl e" and n2: "nodes w2 = nodes ?w1"
      by (auto simp: merge_post_def)
    have "nodes w ?k = None" using fresh by simp
    then have "((nodes w)(?k \<mapsto> ?N))(?k := None) = nodes w" by auto
    then show ?thesis using q nn m r n2 f2 sm Inl
      by (simp add: push_def nf set_right_def set_left_def delete_Node_def)
  next
    case (Inr t)
    with post sm obtain p where r: "res = Inr p" and tp: "tree_at (nodes w2) p t"
      and fr: "\<forall>p. p \<notin> set (addrs t0 @ addrs ?tn) \<longrightarrow> nodes w2 p = nodes ?w1 p"
      and vals: "\<forall>p. map_option value (nodes w2 p) = map_option value (nodes ?w1 p)"
      by (auto simp: merge_post_def)
    show ?thesis using q nn m r tp fr vals f2 sm Inr
      by (auto simp add: push_def nf)
  qed
qed


lemma pop_effect:
  assumes q: "queues w this = Some q" and i: "queue_inv w q t0"
  shows "\<exists>r w'. pop this w = Some (r, w') \<and>
     (case t0 of
        Leaf \<Rightarrow> r = Inl container_is_empty \<and> w' = w
      | Br l ax r0 \<Rightarrow>
        brk w' = brk w \<and>
        (case fst (spec_merge (on_value (comp q)) (cstate w) l r0) of
           Inl e \<Rightarrow> r = Inl (rethrown e) \<and> nodes w' = nodes w \<and> queues w' = queues w
         | Inr t \<Rightarrow> r = Inr () \<and>
             (\<exists>p. queues w' = (queues w)(this \<mapsto> q\<lparr>root := p, elementCount := elementCount q - 1\<rparr>) \<and>
                  tree_at (nodes w') p t) \<and>
             nodes w' (fst ax) = None \<and>
             (\<forall>p. p \<notin> set (addrs t0) \<longrightarrow> nodes w' p = nodes w p) \<and>
             (\<forall>p. p \<noteq> fst ax \<longrightarrow> map_option value (nodes w' p) = map_option value (nodes w p))))"
proof (cases t0)
  case Leaf
  then show ?thesis using q i
    by (auto simp: pop_def empty_pq_def queue_inv_def)
next
  case (Br l ax r0)
  obtain a x where ax: "ax = (a, x)" by (cases ax)
  from i Br ax obtain n where rt: "root q = Some a" and n: "nodes w a = Some n"
    and tl: "tree_at (nodes w) (left n) l" and tr: "tree_at (nodes w) (right n) r0"
    and d: "distinct (a # addrs l @ addrs r0)" and cnt: "elementCount q = Suc (size l + size r0)"
    by (auto simp: queue_inv_def owned_tree_def tree_at_Br)
  have d': "distinct (addrs l @ addrs r0)" using d by simp
  from merge_nodes_refines[OF tl tr d', of "comp q"]
  obtain res w1 where m: "merge_nodes (comp q) (left n) (right n) w = Some (res, w1)"
    and post: "merge_post w l r0 (spec_merge (on_value (comp q)) (cstate w) l r0) res w1"
    by auto
  note f1 = merge_post_fields[OF post]
  obtain sr c' where sm: "spec_merge (on_value (comp q)) (cstate w) l r0 = (sr, c')"
    by (cases "spec_merge (on_value (comp q)) (cstate w) l r0")
  show ?thesis
  proof (cases sr)
    case (Inl e)
    with post sm have r: "res = Inl e" and n1: "nodes w1 = nodes w"
      by (auto simp: merge_post_def)
    then show ?thesis using q rt n m f1 sm Inl Br cnt
      by (simp add: pop_def empty_pq_def)
  next
    case (Inr t)
    with post sm obtain p where r: "res = Inr p" and tp: "tree_at (nodes w1) p t"
      and fr: "\<forall>p. p \<notin> set (addrs l @ addrs r0) \<longrightarrow> nodes w1 p = nodes w p"
      and vals: "\<forall>p. map_option value (nodes w1 p) = map_option value (nodes w p)"
      by (auto simp: merge_post_def)
    have a1: "nodes w1 a = Some n" using fr d n by auto
    have at: "a \<notin> set (addrs t)" using spec_merge_addrs[OF sm[unfolded Inr]] d by auto
    have tp': "tree_at ((nodes w1)(a := None)) p t"
      using at by (intro tree_at_frame[OF tp]) auto
    show ?thesis using q rt n m r tp' fr vals f1 sm Inr Br cnt a1 ax
      by (auto simp add: pop_def empty_pq_def Let_def set_right_def set_left_def delete_Node_def)
  qed
qed

lemma queue_inv_with_env [simp]: "queue_inv (with_env c nf af k w) q t = queue_inv w q t"
  by (simp add: queue_inv_def with_env_def)

lemma world_inv_with_env:
  "world_inv T w \<Longrightarrow> brk w \<le> k \<Longrightarrow> world_inv T (with_env c nf af k w)"
  unfolding world_inv_def by (simp add: with_env_def queue_inv_def)

lemma with_env_fields [simp]:
  "nodes (with_env c nf af k w) = nodes w" "queues (with_env c nf af k w) = queues w"
  "cstate (with_env c nf af k w) = c" "node_faults (with_env c nf af k w) = nf"
  "array_faults (with_env c nf af k w) = af" "brk (with_env c nf af k w) = k"
  by (simp_all add: with_env_def)




lemma merge_pq_returned:
  assumes "this \<noteq> other" and "queues w this = Some qa" and "queues w other = Some qb"
    and "queue_inv w qa ta" and "queue_inv w qb tb"
    and "set (addrs ta) \<inter> set (addrs tb) = {}"
    and "merge_pq this other w = Some (Inr (), w')"
  shows "\<exists>qa' qb' t.
     queues w' this = Some qa' \<and> queues w' other = Some qb' \<and>
     queue_inv w' qa' t \<and>
     mset (elems t) = mset (elems ta) + mset (elems tb) \<and>
     mset (addrs t) = mset (addrs ta) + mset (addrs tb) \<and>
     size_pq this w' = Some (elementCount qa + elementCount qb) \<and>
     root qb' = None \<and> elementCount qb' = 0 \<and> empty_pq other w' = Some True"
proof -
  let ?sm = "spec_merge (on_value (comp qa)) (cstate w) ta tb"
  from merge_pq_effect[OF assms(1-6)] assms(7)
  obtain t p where sm: "fst ?sm = Inr t"
    and qs: "queues w' = (queues w)
                 (this \<mapsto> qa\<lparr>root := p, elementCount := elementCount qa + elementCount qb\<rparr>,
                  other \<mapsto> qb\<lparr>root := None, elementCount := 0\<rparr>)"
    and tp: "tree_at (nodes w') p t"
    by (cases "fst ?sm") auto
  then have sm': "?sm = (Inr t, snd ?sm)" by (metis prod.collapse)
  have d: "distinct (addrs ta @ addrs tb)"
    using assms(4-6) by (auto simp: queue_inv_def owned_tree_def)
  have cnt: "elementCount qa + elementCount qb = size t"
    using assms(4,5) spec_merge_size[OF sm'] by (simp add: queue_inv_def)
  show ?thesis
    using qs tp assms(1) cnt spec_merge_distinct[OF sm' d]
      spec_merge_elems_mset[OF sm'] spec_merge_addrs_mset[OF sm']
    by (auto simp add: queue_inv_def owned_tree_def size_pq_def empty_pq_def)
qed

lemma merge_pq_outcome:
  assumes "this \<noteq> other" and "queues w this = Some qa" and "queues w other = Some qb"
    and "queue_inv w qa ta" and "queue_inv w qb tb"
    and "set (addrs ta) \<inter> set (addrs tb) = {}"
  shows "\<exists>r w'. merge_pq this other w = Some (r, w') \<and>
           (never_fails (comp qa) G \<and> cstate w \<in> G \<longrightarrow> r = Inr ())"
proof -
  let ?sm = "spec_merge (on_value (comp qa)) (cstate w) ta tb"
  from merge_pq_effect[OF assms] obtain r w' where
    m: "merge_pq this other w = Some (r, w')"
    and c: "case fst ?sm of Inl e \<Rightarrow> r = Inl (rethrown e) | Inr t \<Rightarrow> r = Inr ()"
    by (cases "fst ?sm") auto
  have "r = Inr ()" if "never_fails (comp qa) G \<and> cstate w \<in> G"
  proof -
    from spec_merge_never_fails[OF conjunct1[OF that] conjunct2[OF that], of ta tb]
    obtain t c' where "?sm = (Inr t, c')" by blast
    then show ?thesis using c by simp
  qed
  then show ?thesis using m by blast
qed

lemma never_fails_less_cmp: "never_fails less_cmp UNIV"
  by (simp add: never_fails_def less_cmp_def)

text \<open>
  C4. When two different queues are consistent and share no node, \<open>merge\<close> has
  an outcome, and it returns normally whenever the comparison does not throw.
  When it has returned normally, \<open>this\<close> has a tree made of exactly the nodes
  of both, so the union of the two multisets of elements and the sum of the two
  counts, and \<open>other\<close> has a null root and the count zero.
\<close>

theorem merge_pq_unites:
  assumes "this \<noteq> other" and "queues w this = Some qa" and "queues w other = Some qb"
    and "queue_inv w qa ta" and "queue_inv w qb tb"
    and "set (addrs ta) \<inter> set (addrs tb) = {}"
  shows "\<exists>r w'. merge_pq this other w = Some (r, w') \<and>
     (never_fails (comp qa) G \<and> cstate w \<in> G \<longrightarrow> r = Inr ()) \<and>
     (r = Inr () \<longrightarrow>
        (\<exists>qa' qb' t.
           queues w' this = Some qa' \<and> queues w' other = Some qb' \<and>
           queue_inv w' qa' t \<and>
           mset (elems t) = mset (elems ta) + mset (elems tb) \<and>
           mset (addrs t) = mset (addrs ta) + mset (addrs tb) \<and>
           size_pq this w' = Some (elementCount qa + elementCount qb) \<and>
           root qb' = None \<and> elementCount qb' = 0 \<and> empty_pq other w' = Some True))"
proof -
  from merge_pq_outcome[OF assms, of G] obtain r w' where
    m: "merge_pq this other w = Some (r, w')"
    and nf: "never_fails (comp qa) G \<and> cstate w \<in> G \<longrightarrow> r = Inr ()"
    by blast
  have "\<exists>qa' qb' t.
           queues w' this = Some qa' \<and> queues w' other = Some qb' \<and>
           queue_inv w' qa' t \<and>
           mset (elems t) = mset (elems ta) + mset (elems tb) \<and>
           mset (addrs t) = mset (addrs ta) + mset (addrs tb) \<and>
           size_pq this w' = Some (elementCount qa + elementCount qb) \<and>
           root qb' = None \<and> elementCount qb' = 0 \<and> empty_pq other w' = Some True"
    if "r = Inr ()"
    using merge_pq_returned[OF assms] m that by blast
  then show ?thesis using m nf by blast
qed

theorem merge_pq_unites_witness:
  "(0::nat) \<noteq> 1 \<and>
   queues two_queues 0 = Some \<lparr>root = Some 0, elementCount = 1, comp = less_cmp\<rparr> \<and>
   queues two_queues 1 = Some \<lparr>root = Some 1, elementCount = 1, comp = less_cmp\<rparr> \<and>
   queue_inv two_queues \<lparr>root = Some 0, elementCount = 1, comp = less_cmp\<rparr> (Br Leaf (0::nat, 5::int) Leaf) \<and>
   queue_inv two_queues \<lparr>root = Some 1, elementCount = 1, comp = less_cmp\<rparr> (Br Leaf (1::nat, 8::int) Leaf) \<and>
   set (addrs (Br Leaf (0::nat, 5::int) Leaf)) \<inter> set (addrs (Br Leaf (1::nat, 8::int) Leaf)) = {} \<and>
   never_fails (comp \<lparr>root = Some 0, elementCount = 1, comp = less_cmp\<rparr>) UNIV \<and>
   cstate two_queues \<in> UNIV \<and>
   merge_pq 0 1 two_queues = Some (Inr (), merged_queues) \<and>
   (\<exists>qa' qb' t.
     queues merged_queues 0 = Some qa' \<and> queues merged_queues 1 = Some qb' \<and>
     queue_inv merged_queues qa' t \<and>
     mset (elems t) = mset (elems (Br Leaf (0::nat, 5::int) Leaf)) + mset (elems (Br Leaf (1::nat, 8::int) Leaf)) \<and>
     mset (addrs t) = mset (addrs (Br Leaf (0::nat, 5::int) Leaf)) + mset (addrs (Br Leaf (1::nat, 8::int) Leaf)) \<and>
     size_pq 0 merged_queues = Some (elementCount \<lparr>root = Some 0, elementCount = 1, comp = less_cmp\<rparr> + elementCount \<lparr>root = Some 1, elementCount = 1, comp = less_cmp\<rparr>) \<and>
     root qb' = None \<and> elementCount qb' = 0 \<and> empty_pq 1 merged_queues = Some True)"
proof -
  let ?qa = "\<lparr>root = Some 0, elementCount = 1, comp = less_cmp\<rparr>"
  let ?qb = "\<lparr>root = Some 1, elementCount = 1, comp = less_cmp\<rparr>"
  let ?ta = "Br Leaf (0::nat, 5::int) Leaf"
  let ?tb = "Br Leaf (1::nat, 8::int) Leaf"
  have ne: "(0::nat) \<noteq> 1" by simp
  have qa: "queues two_queues 0 = Some ?qa" by (simp add: two_queues_def)
  have qb: "queues two_queues 1 = Some ?qb" by (simp add: two_queues_def)
  have ia: "queue_inv two_queues ?qa ?ta"
    by (simp add: queue_inv_def owned_tree_def two_queues_def two_nodes_def)
  have ib: "queue_inv two_queues ?qb ?tb"
    by (simp add: queue_inv_def owned_tree_def two_queues_def two_nodes_def)
  have dj: "set (addrs ?ta) \<inter> set (addrs ?tb) = {}"
    by simp
  have nf: "never_fails (comp ?qa) UNIV" using never_fails_less_cmp by simp
  have u: "cstate two_queues \<in> UNIV" by simp
  from merge_pq_unites[OF ne qa qb ia ib dj, of UNIV]
  obtain r w' where m: "merge_pq 0 1 two_queues = Some (r, w')"
    and n: "never_fails (comp ?qa) UNIV \<and> cstate two_queues \<in> UNIV \<longrightarrow> r = Inr ()"
    and p: "r = Inr () \<longrightarrow>
        (\<exists>qa' qb' t.
           queues w' 0 = Some qa' \<and> queues w' 1 = Some qb' \<and>
           queue_inv w' qa' t \<and>
           mset (elems t) = mset (elems ?ta) + mset (elems ?tb) \<and>
           mset (addrs t) = mset (addrs ?ta) + mset (addrs ?tb) \<and>
           size_pq 0 w' = Some (elementCount ?qa + elementCount ?qb) \<and>
           root qb' = None \<and> elementCount qb' = 0 \<and> empty_pq 1 w' = Some True)"
    by (elim exE conjE)
  have r: "r = Inr ()" using n nf u by simp
  have ex: "merge_pq 0 1 two_queues = Some (Inr (), merged_queues)"
    by (simp add: merge_pq_def two_queues_def two_nodes_def merge_nodes.simps less_cmp_def
        set_left_def set_right_def MergeGuard_ctor_def MergeGuard_dtor_def commit_def
        install_and_swap_def fun_upd_twist numeral_2_eq_2 merged_queues_def)
  have w': "w' = merged_queues" using m ex by simp
  note c = p[rule_format, OF r, unfolded w']
  show ?thesis
    by (intro conjI ne qa qb ia ib dj nf u ex c)
qed


section \<open>Teardown and deep copy\<close>

lemma push_pending_world:
  "push_pending child stack cap w = (r, w') \<Longrightarrow> w'\<lparr>array_faults := array_faults w\<rparr> = w"
  by (auto simp: push_pending_def new_array_def split: option.splits list.splits if_splits)

lemma push_pending_stack:
  "push_pending child stack cap w = (Inr (s, c), w') \<Longrightarrow>
     s = (case child of None \<Rightarrow> [] | Some p \<Rightarrow> [p]) @ stack"
  by (auto simp: push_pending_def new_array_def split: option.splits list.splits if_splits)

lemma push_pending_nofault:
  "\<forall>x \<in> set (array_faults w). x = None \<Longrightarrow> push_pending child stack cap w = (r, w') \<Longrightarrow>
     (\<exists>s c. r = Inr (s, c)) \<and> (\<forall>x \<in> set (array_faults w'). x = None)"
  by (auto simp: push_pending_def new_array_def split: option.splits list.splits if_splits
      dest: list.set_sel(2))

lemma faults_only_nodes: "w'\<lparr>array_faults := af\<rparr> = w \<Longrightarrow> nodes w' = nodes w"
  by (cases w; cases w') auto

lemma faults_only_fields:
  "w'\<lparr>array_faults := af\<rparr> = w \<Longrightarrow>
     nodes w' = nodes w \<and> queues w' = queues w \<and> cstate w' = cstate w \<and>
     node_faults w' = node_faults w \<and> brk w' = brk w"
  by (cases w; cases w') auto

lemma child_forest:
  "tree_at h c t \<Longrightarrow>
   list_all2 (\<lambda>p t. tree_at h (Some p) t) (case c of None \<Rightarrow> [] | Some p \<Rightarrow> [p]) (child_trees t)"
  by (cases c; cases t) auto

lemma child_trees_addrs [simp]: "concat (map addrs (child_trees t)) = addrs t"
  by (cases t) (auto simp: addrs_def)

lemma child_trees_size [simp]: "sum_list (map size (child_trees t)) = size t"
  by (cases t) auto

lemma list_all2_tree_frame:
  "list_all2 (\<lambda>p t. tree_at h (Some p) t) ps ts \<Longrightarrow>
   \<forall>q \<in> set (concat (map addrs ts)). h' q = h q \<Longrightarrow>
   list_all2 (\<lambda>p t. tree_at h' (Some p) t) ps ts"
  by (induction ps ts rule: list_all2_induct) (auto intro: tree_at_frame)

lemma clear_loop_forest_aux:
  "sum_list (map size ts) = n \<Longrightarrow> forest_at (nodes w) ps ts \<Longrightarrow>
   \<exists>r w'. clear_loop ps cap w = Some (r, w') \<and> clear_post w (set (concat (map addrs ts))) r w'"
proof (induction n arbitrary: ts ps cap w)
  case 0
  have "ts = []"
  proof (cases ts)
    case (Cons t ts')
    with "0.prems" obtain p where "tree_at (nodes w) (Some p) t" and "size t = 0"
      by (auto simp: forest_at_def list_all2_Cons2)
    then show ?thesis by (cases t) auto
  qed simp
  with "0.prems" have "ps = []" by (simp add: forest_at_def)
  then show ?case using \<open>ts = []\<close>
    by (subst clear_loop.simps) (simp add: clear_post_def)
next
  case (Suc m)
  from Suc.prems obtain t ts' where ts: "ts = t # ts'" by (cases ts) auto
  with Suc.prems obtain cur rest where ps: "ps = cur # rest"
    and tc: "tree_at (nodes w) (Some cur) t"
    and trest: "list_all2 (\<lambda>p t. tree_at (nodes w) (Some p) t) rest ts'"
    by (auto simp: forest_at_def list_all2_Cons2)
  from tc obtain l x r n0 where t: "t = Br l (cur, x) r" and n0: "nodes w cur = Some n0"
    and tl: "tree_at (nodes w) (left n0) l" and tr: "tree_at (nodes w) (right n0) r"
    by (auto simp: tree_at_Some)
  from Suc.prems ts t have dist: "distinct (cur # addrs l @ addrs r @ concat (map addrs ts'))"
    by (simp add: forest_at_def)
  let ?A = "set (concat (map addrs ts))"
  obtain r1 w1 where p1: "push_pending (left n0) rest cap w = (r1, w1)"
    by (cases "push_pending (left n0) rest cap w")
  note f1 = faults_only_fields[OF push_pending_world[OF p1]]
  show ?case
  proof (cases r1)
    case (Inl e)
    have "\<not> (\<forall>x \<in> set (array_faults w). x = None)"
      using push_pending_nofault[OF _ p1] Inl by blast
    then have "clear_post w ?A (Inl e) w1"
      using f1 by (simp add: clear_post_def)
    then show ?thesis using ps n0 p1 Inl
      by (subst clear_loop.simps) simp
  next
    case (Inr sc1)
    obtain s1 cap1 where sc1: "sc1 = (s1, cap1)" by (cases sc1)
    have s1: "s1 = (case left n0 of None \<Rightarrow> [] | Some p \<Rightarrow> [p]) @ rest"
      using push_pending_stack p1 Inr sc1 by blast
    obtain r2 w2 where p2: "push_pending (right n0) s1 cap1 w1 = (r2, w2)"
      by (cases "push_pending (right n0) s1 cap1 w1")
    note f2 = faults_only_fields[OF push_pending_world[OF p2]]
    have nf1: "\<forall>x \<in> set (array_faults w). x = None \<Longrightarrow> \<forall>x \<in> set (array_faults w1). x = None"
      using push_pending_nofault[OF _ p1] by blast
    show ?thesis
    proof (cases r2)
      case (Inl e)
      have "\<not> (\<forall>x \<in> set (array_faults w1). x = None)"
        using push_pending_nofault[OF _ p2] Inl by blast
      then have "\<not> (\<forall>x \<in> set (array_faults w). x = None)"
        using nf1 by blast
      then have "clear_post w ?A (Inl e) w2"
        using f1 f2 by (simp add: clear_post_def)
      then show ?thesis using ps n0 p1 Inr sc1 p2 Inl f1
        by (subst clear_loop.simps) simp
    next
      case (Inr sc2)
      note r2 = this
      obtain s2 cap2 where sc2: "sc2 = (s2, cap2)" by (cases sc2)
      have s2: "s2 = (case right n0 of None \<Rightarrow> [] | Some p \<Rightarrow> [p]) @ s1"
        using push_pending_stack p2 Inr sc2 by blast
      have nf2: "\<forall>x \<in> set (array_faults w). x = None \<Longrightarrow> \<forall>x \<in> set (array_faults w2). x = None"
        using push_pending_nofault[OF _ p2] nf1 by blast
      let ?w3 = "w2\<lparr>nodes := (nodes w2)(cur := None)\<rparr>"
      let ?ts3 = "child_trees r @ child_trees l @ ts'"
      have n2: "nodes w2 = nodes w" using f1 f2 by simp
      have fo: "list_all2 (\<lambda>p t. tree_at (nodes w) (Some p) t) s2 ?ts3"
        unfolding s2 s1 using child_forest[OF tl] child_forest[OF tr] trest
        by (auto intro!: list_all2_appendI)
      have "list_all2 (\<lambda>p t. tree_at (nodes ?w3) (Some p) t) s2 ?ts3"
        using dist n2 by (intro list_all2_tree_frame[OF fo]) auto
      then have f3: "forest_at (nodes ?w3) s2 ?ts3"
        using dist by (auto simp: forest_at_def)
      have sz: "sum_list (map size ?ts3) = m"
        using Suc.prems(1) ts t by simp
      from Suc.IH[OF sz f3, of cap2]
      obtain r' w' where cl: "clear_loop s2 cap2 ?w3 = Some (r', w')"
        and post: "clear_post ?w3 (set (concat (map addrs ?ts3))) r' w'"
        by blast
      have step: "clear_loop ps cap w = clear_loop s2 cap2 ?w3"
        using ps n0 p1 \<open>r1 = Inr sc1\<close> sc1 p2 r2 sc2 f1 n2
        by (subst clear_loop.simps) (simp add: delete_Node_def)
      have A: "?A = insert cur (set (concat (map addrs ?ts3)))"
        using ts t by auto
      let ?A' = "set (concat (map addrs ?ts3))"
      have n3: "nodes ?w3 p = (if p = cur then None else nodes w p)" for p
        using n2 by simp
      have e3: "queues ?w3 = queues w" "cstate ?w3 = cstate w" "node_faults ?w3 = node_faults w"
        "brk ?w3 = brk w" "array_faults ?w3 = array_faults w2"
        using f1 f2 by simp_all
      from post have q1: "queues w' = queues w \<and> cstate w' = cstate w \<and>
          node_faults w' = node_faults w \<and> brk w' = brk w"
        unfolding clear_post_def e3 by blast
      from post have q2: "\<forall>p. p \<notin> ?A' \<longrightarrow> nodes w' p = nodes ?w3 p"
        and q3: "\<forall>p. nodes w' p = None \<or> nodes w' p = nodes ?w3 p"
        and q4: "r' = Inr () \<longrightarrow> (\<forall>p \<in> ?A'. nodes w' p = None)"
        and q5: "(\<forall>x \<in> set (array_faults w2). x = None) \<longrightarrow>
                  r' = Inr () \<and> (\<forall>x \<in> set (array_faults w'). x = None)"
        unfolding clear_post_def e3 by blast+
      have c0: "nodes w' cur = None" using q3[rule_format, of cur] n3[of cur] by auto
      have c1: "\<forall>p. p \<notin> insert cur ?A' \<longrightarrow> nodes w' p = nodes w p"
        using q2 n3 by auto
      have c2: "\<forall>p. nodes w' p = None \<or> nodes w' p = nodes w p"
      proof
        fix p show "nodes w' p = None \<or> nodes w' p = nodes w p"
          using q3[rule_format, of p] n3[of p] by (cases "p = cur") auto
      qed
      have c3: "r' = Inr () \<longrightarrow> (\<forall>p \<in> insert cur ?A'. nodes w' p = None)"
        using q4 c0 by auto
      have c4: "(\<forall>x \<in> set (array_faults w). x = None) \<longrightarrow>
                  r' = Inr () \<and> (\<forall>x \<in> set (array_faults w'). x = None)"
        using q5 nf2 by blast
      have "clear_post w ?A r' w'"
        unfolding A clear_post_def using q1 c1 c2 c3 c4 by blast
      then show ?thesis using cl step by auto
    qed
  qed
qed

lemma clear_nodes_tree:
  assumes "owned_tree (nodes w) p t"
  shows "\<exists>r w'. clear_nodes p w = Some (r, w') \<and> clear_post w (set (addrs t)) r w'"
proof (cases p)
  case None
  then show ?thesis using assms by (simp add: clear_nodes_def clear_post_def owned_tree_def)
next
  case (Some a)
  show ?thesis
  proof (cases "\<exists>e rest. array_faults w = Some e # rest")
    case True
    then obtain e rest where af: "array_faults w = Some e # rest" by blast
    then have "clear_nodes p w = Some (Inl e, w\<lparr>array_faults := rest\<rparr>)"
      using Some by (simp add: clear_nodes_def new_array_def)
    moreover have "clear_post w (set (addrs t)) (Inl e) (w\<lparr>array_faults := rest\<rparr>)"
      using af by (simp add: clear_post_def)
    ultimately show ?thesis by blast
  next
    case False
    let ?w1 = "w\<lparr>array_faults := tl (array_faults w)\<rparr>"
    have na: "new_array w = (Inr (), ?w1)"
      using False by (auto simp: new_array_def split: list.splits option.splits)
    have fo: "forest_at (nodes ?w1) [a] [t]"
      using assms Some by (simp add: forest_at_def owned_tree_def)
    from clear_loop_forest_aux[where cap=1024, OF refl fo]
    obtain r w' where cl: "clear_loop [a] 1024 ?w1 = Some (r, w')"
      and post: "clear_post ?w1 (set (concat (map addrs [t]))) r w'" by blast
    have tlf: "\<forall>x \<in> set (array_faults w). x = None \<Longrightarrow> \<forall>x \<in> set (tl (array_faults w)). x = None"
      by (cases "array_faults w") auto
    have e1: "queues ?w1 = queues w" "cstate ?w1 = cstate w" "node_faults ?w1 = node_faults w"
      "brk ?w1 = brk w" "nodes ?w1 = nodes w" "array_faults ?w1 = tl (array_faults w)"
      "set (concat (map addrs [t])) = set (addrs t)"
      by simp_all
    have "clear_post w (set (addrs t)) r w'"
      using post tlf unfolding clear_post_def e1 by blast
    moreover have "clear_nodes p w = Some (r, w')"
      using Some na cl by (simp add: clear_nodes_def)
    ultimately show ?thesis by blast
  qed
qed

lemma tree_at_below_brk:
  assumes "tree_at (nodes w) n t" "\<forall>p. brk w \<le> p \<longrightarrow> nodes w p = None" "a \<in> set (addrs t)"
  shows "a < brk w"
  using tree_at_live[OF assms(1,3)] assms(2) by (meson not_le)

lemma tree_at_frame_below:
  assumes "tree_at (nodes w) n t" "\<forall>p. brk w \<le> p \<longrightarrow> nodes w p = None"
    "\<forall>p. p < brk w \<longrightarrow> h' p = nodes w p"
  shows "tree_at h' n t"
  using assms tree_at_below_brk[OF assms(1,2)] by (intro tree_at_frame[OF assms(1)]) auto

lemma clear_postD:
  assumes "clear_post w A r w'"
  shows "queues w' = queues w" "cstate w' = cstate w" "node_faults w' = node_faults w" "brk w' = brk w"
    and "\<And>p. p \<notin> A \<Longrightarrow> nodes w' p = nodes w p"
    and "\<And>p. nodes w' p = None \<or> nodes w' p = nodes w p"
    and "\<And>p. r = Inr () \<Longrightarrow> p \<in> A \<Longrightarrow> nodes w' p = None"
    and "no_array_fault w \<Longrightarrow> r = Inr ()"
    and "no_array_fault w \<Longrightarrow> no_array_fault w'"
  using assms by (simp_all add: clear_post_def no_array_fault_def)

lemma clone_handler_post:
  assumes own: "owned_tree (nodes w2) (Some k) tk"
    and sub: "\<forall>p \<in> set (addrs tk). k \<le> p"
    and A: "P \<Longrightarrow> \<forall>p. k \<le> p \<longrightarrow> nodes w2 p \<noteq> None \<longrightarrow> p \<in> set (addrs tk)"
    and F: "P \<Longrightarrow> no_array_fault w2"
  shows "\<exists>e' w3. clone_handler k e w2 = Some (Inl e', w3) \<and>
     queues w3 = queues w2 \<and> cstate w3 = cstate w2 \<and> brk w3 = brk w2 \<and>
     (\<forall>p. nodes w3 p = None \<or> nodes w3 p = nodes w2 p) \<and>
     (\<forall>p. p < k \<longrightarrow> nodes w3 p = nodes w2 p) \<and>
     (P \<longrightarrow> no_array_fault w3 \<and> e' = e \<and> (\<forall>p. k \<le> p \<longrightarrow> nodes w3 p = None))"
proof -
  from clear_nodes_tree[OF own] obtain r w3 where
    cl: "clear_nodes (Some k) w2 = Some (r, w3)" and post: "clear_post w2 (set (addrs tk)) r w3"
    by blast
  note d = clear_postD[OF post]
  have lt: "\<forall>p. p < k \<longrightarrow> nodes w3 p = nodes w2 p"
    using d(5) sub by (meson not_le)
  have nl: "\<forall>p. k \<le> p \<longrightarrow> nodes w3 p = None" if P
  proof (intro impI allI)
    fix p assume kp: "k \<le> p"
    have r: "r = Inr ()" using d(8) F[OF that] by simp
    show "nodes w3 p = None"
    proof (cases "nodes w2 p = None")
      case True
      then show ?thesis using d(6)[of p] by auto
    next
      case False
      then have "p \<in> set (addrs tk)" using A[OF that] kp by simp
      then show ?thesis using d(7) r by simp
    qed
  qed
  obtain e' where e': "clone_handler k e w2 = Some (Inl e', w3)" and ee: "r = Inr () \<Longrightarrow> e' = e"
    using cl by (cases r) (auto simp: clone_handler_def)
  show ?thesis
    using e' ee d(1,2,4) d(6) lt nl d(8,9) F by blast
qed

lemma clone_postD:
  assumes "clone_post w t r w'"
  shows "queues w' = queues w" "cstate w' = cstate w" "brk w \<le> brk w'"
    and "\<And>p. brk w' \<le> p \<Longrightarrow> nodes w' p = None"
    and "\<And>p. p < brk w \<Longrightarrow> nodes w' p = nodes w p"
    and "no_array_fault w \<Longrightarrow> no_array_fault w'"
  using assms by (simp_all add: clone_post_def)

lemma clone_post_InrD:
  "clone_post w t (Inr c) w' \<Longrightarrow>
     \<exists>t'. tree_at (nodes w') c t' \<and> distinct (addrs t') \<and>
          map_tree snd t' = map_tree snd t \<and> set (addrs t') = {brk w ..< brk w'}"
  by (simp add: clone_post_def)

lemma clone_post_InlD:
  "clone_post w t (Inl e) w' \<Longrightarrow> no_array_fault w \<Longrightarrow> brk w \<le> p \<Longrightarrow> nodes w' p = None"
  by (simp add: clone_post_def)

lemma new_Node_cases:
  "(\<exists>e rest. node_faults w = Some e # rest \<and> new_Node v w = (Inl e, w\<lparr>node_faults := rest\<rparr>)) \<or>
   new_Node v w = (Inr (brk w),
      w\<lparr>nodes := (nodes w)(brk w \<mapsto> \<lparr>value = v, left = None, right = None\<rparr>),
        node_faults := tl (node_faults w), brk := Suc (brk w)\<rparr>)"
  by (auto simp: new_Node_def split: list.splits option.splits)

lemma clone_nodes_tree:
  "tree_at (nodes w) n t \<Longrightarrow> \<forall>p. brk w \<le> p \<longrightarrow> nodes w p = None \<Longrightarrow>
   \<exists>r w'. clone_nodes n w = Some (r, w') \<and> clone_post w t r w'"
proof (induction t arbitrary: n w)
  case Leaf
  then show ?case
    by (subst clone_nodes.simps) (simp add: clone_post_def)
next
  case (Br l ax r)
  obtain a x where ax: "ax = (a, x)" by (cases ax)
  from Br.prems(1) ax obtain nd where n: "n = Some a" and nd: "nodes w a = Some nd" "value nd = x"
    and tl: "tree_at (nodes w) (left nd) l" and tr: "tree_at (nodes w) (right nd) r"
    by (auto simp: tree_at_Br)
  note fresh = Br.prems(2)
  have a_lt: "a < brk w"
  proof (rule ccontr)
    assume "\<not> a < brk w"
    then have "nodes w a = None" using fresh by simp
    then show False using nd by simp
  qed
  let ?k = "brk w"
  let ?N = "\<lparr>value = x, left = None, right = None\<rparr>"
  let ?w1 = "w\<lparr>nodes := (nodes w)(?k \<mapsto> ?N), node_faults := tl (node_faults w), brk := Suc ?k\<rparr>"
  from new_Node_cases[of w x] show ?case
  proof
    assume "\<exists>e rest. node_faults w = Some e # rest \<and> new_Node x w = (Inl e, w\<lparr>node_faults := rest\<rparr>)"
    then obtain e rest where nn: "new_Node x w = (Inl e, w\<lparr>node_faults := rest\<rparr>)" by blast
    have "clone_post w (Br l ax r) (Inl e) (w\<lparr>node_faults := rest\<rparr>)"
      using fresh by (simp add: clone_post_def no_array_fault_def)
    then show ?thesis using n nd nn
      by (subst clone_nodes.simps) simp
  next
    assume nn: "new_Node x w = (Inr ?k, ?w1)"
    have fresh1: "\<forall>p. brk ?w1 \<le> p \<longrightarrow> nodes ?w1 p = None" using fresh by simp
    have below1: "\<forall>p. p < brk w \<longrightarrow> nodes ?w1 p = nodes w p" by simp
    have nd1: "nodes ?w1 a = Some nd" using nd a_lt by simp
    have tl1: "tree_at (nodes ?w1) (left nd) l"
      using tree_at_frame_below[OF tl fresh below1] .
    from Br.IH(1)[OF tl1 fresh1] obtain r2 w2 where
      c2: "clone_nodes (left nd) ?w1 = Some (r2, w2)" and p2: "clone_post ?w1 l r2 w2" by blast
    note d2 = clone_postD[OF p2]
    have k2: "nodes w2 ?k = Some ?N" using d2(5)[of ?k] by simp
    have below2: "\<forall>p. p < brk w \<longrightarrow> nodes w2 p = nodes w p" using d2(5) by simp
    have af1: "no_array_fault w \<Longrightarrow> no_array_fault ?w1" by (simp add: no_array_fault_def)
    have af2: "no_array_fault w \<Longrightarrow> no_array_fault w2" using d2(6) af1 by blast
    have brk2: "Suc ?k \<le> brk w2" using d2(3) by simp
    have start: "clone_nodes n w =
        (case r2 of
           Inl e \<Rightarrow> clone_handler ?k e w2
         | Inr cl \<Rightarrow>
             Option.bind (set_left ?k cl w2)
               (\<lambda>w3. case nodes w3 a of
                   None \<Rightarrow> None
                 | Some nd3 \<Rightarrow>
                     Option.bind (clone_nodes (right nd3) w3)
                       (\<lambda>(r', w4). case r' of
                            Inl e \<Rightarrow> clone_handler ?k e w4
                          | Inr cr \<Rightarrow> map_option (Pair (Inr (Some ?k))) (set_right ?k cr w4))))"
      using n nd nn nd1 c2 by (subst clone_nodes.simps) simp
    show ?thesis
    proof (cases r2)
      case (Inl e)
      have own: "owned_tree (nodes w2) (Some ?k) (Br Leaf (?k, x) Leaf)"
        using k2 by (simp add: owned_tree_def)
      have nl: "no_array_fault w \<Longrightarrow>
          \<forall>p. ?k \<le> p \<longrightarrow> nodes w2 p \<noteq> None \<longrightarrow> p \<in> set (addrs (Br Leaf (?k, x) Leaf))"
      proof (intro allI impI)
        fix p assume na: "no_array_fault w" and kp: "?k \<le> p" and lv: "nodes w2 p \<noteq> None"
        have "\<not> Suc ?k \<le> p"
          using clone_post_InlD[OF p2[unfolded Inl] af1[OF na], of p] lv by auto
        then show "p \<in> set (addrs (Br Leaf (?k, x) Leaf))" using kp by simp
      qed
      from clone_handler_post[where e=e and P="no_array_fault w", OF own _ nl af2] obtain e' w3 where
        h: "clone_handler ?k e w2 = Some (Inl e', w3)"
        and h1: "queues w3 = queues w2" "cstate w3 = cstate w2" "brk w3 = brk w2"
        and h2: "\<forall>p. nodes w3 p = None \<or> nodes w3 p = nodes w2 p"
        and h3: "\<forall>p. p < ?k \<longrightarrow> nodes w3 p = nodes w2 p"
        and h4: "no_array_fault w \<longrightarrow> no_array_fault w3 \<and> e' = e \<and> (\<forall>p. ?k \<le> p \<longrightarrow> nodes w3 p = None)"
        by auto
      have "clone_post w (Br l ax r) (Inl e') w3"
        unfolding clone_post_def
        using h1 h2 h3 h4 d2(1,2) brk2 d2(4) below2 af2
        by (auto simp: le_Suc_eq)
      then show ?thesis using start Inl h by simp
    next
      case (Inr cl)
      from clone_post_InrD[OF p2[unfolded Inr]] obtain tl' where
        tl': "tree_at (nodes w2) cl tl'" and dl: "distinct (addrs tl')"
        and ml: "map_tree snd tl' = map_tree snd l" and al: "set (addrs tl') = {Suc ?k ..< brk w2}"
        by auto
      let ?N1 = "\<lparr>value = x, left = cl, right = None\<rparr>"
      let ?w3 = "w2\<lparr>nodes := (nodes w2)(?k \<mapsto> ?N1)\<rparr>"
      have sl: "set_left ?k cl w2 = Some ?w3" using k2 by (simp add: set_left_def)
      have a3: "nodes ?w3 a = Some nd" using below2 a_lt nd by simp
      have fresh3: "\<forall>p. brk ?w3 \<le> p \<longrightarrow> nodes ?w3 p = None"
        using d2(4) brk2 by auto
      have below3: "\<forall>p. p < brk w \<longrightarrow> nodes ?w3 p = nodes w p" using below2 by simp
      have tr3: "tree_at (nodes ?w3) (right nd) r"
        using tree_at_frame_below[OF tr fresh below3] .
      from Br.IH(2)[OF tr3 fresh3] obtain r4 w4 where
        c4: "clone_nodes (right nd) ?w3 = Some (r4, w4)" and p4: "clone_post ?w3 r r4 w4" by blast
      note d4 = clone_postD[OF p4]
      have brk4: "brk w2 \<le> brk w4" using d4(3) by simp
      have k4: "nodes w4 ?k = Some ?N1" using d4(5)[of ?k] brk2 by simp
      have same4: "p < brk w2 \<Longrightarrow> p \<noteq> ?k \<Longrightarrow> nodes w4 p = nodes w2 p" for p
        using d4(5)[of p] by simp
      have below4: "\<forall>p. p < brk w \<longrightarrow> nodes w4 p = nodes w p"
        using same4 below2 brk2 by auto
      have tl4: "tree_at (nodes w4) cl tl'"
        using al same4 by (intro tree_at_frame[OF tl']) auto
      have af4: "no_array_fault w \<Longrightarrow> no_array_fault w4"
        using d4(6) af2 by (simp add: no_array_fault_def)
      have start': "clone_nodes n w =
          (case r4 of
             Inl e \<Rightarrow> clone_handler ?k e w4
           | Inr cr \<Rightarrow> map_option (Pair (Inr (Some ?k))) (set_right ?k cr w4))"
        using start Inr sl a3 c4 by simp
      show ?thesis
      proof (cases r4)
        case (Inl e)
        let ?tk = "Br tl' (?k, x) Leaf"
        have own: "owned_tree (nodes w4) (Some ?k) ?tk"
          using k4 tl4 dl al by (simp add: owned_tree_def)
        have sub: "\<forall>p \<in> set (addrs ?tk). ?k \<le> p" using al by auto
        have nl: "no_array_fault w \<Longrightarrow>
            \<forall>p. ?k \<le> p \<longrightarrow> nodes w4 p \<noteq> None \<longrightarrow> p \<in> set (addrs ?tk)"
        proof (intro allI impI)
          fix p assume na: "no_array_fault w" and kp: "?k \<le> p" and lv: "nodes w4 p \<noteq> None"
          have "no_array_fault ?w3" using af2[OF na] by (simp add: no_array_fault_def)
          then have "\<not> brk w2 \<le> p"
            using clone_post_InlD[OF p4[unfolded Inl], of p] lv by auto
          then show "p \<in> set (addrs ?tk)" using kp al by auto
        qed
        from clone_handler_post[where e=e and P="no_array_fault w", OF own sub nl af4] obtain e' w5 where
          h: "clone_handler ?k e w4 = Some (Inl e', w5)"
          and h1: "queues w5 = queues w4" "cstate w5 = cstate w4" "brk w5 = brk w4"
          and h2: "\<forall>p. nodes w5 p = None \<or> nodes w5 p = nodes w4 p"
          and h3: "\<forall>p. p < ?k \<longrightarrow> nodes w5 p = nodes w4 p"
          and h4: "no_array_fault w \<longrightarrow> no_array_fault w5 \<and> e' = e \<and> (\<forall>p. ?k \<le> p \<longrightarrow> nodes w5 p = None)"
          by auto
        have f5: "\<forall>p. brk w5 \<le> p \<longrightarrow> nodes w5 p = None"
          using h2 d4(4) h1(3) by metis
        have "clone_post w (Br l ax r) (Inl e') w5"
          unfolding clone_post_def
          using h1 h3 h4 d2(1,2) d4(1,2) brk2 brk4 f5 below4
          by auto
        then show ?thesis using start' Inl h by simp
      next
        case (Inr cr)
        from clone_post_InrD[OF p4[unfolded Inr]] obtain tr' where
          tr': "tree_at (nodes w4) cr tr'" and dr: "distinct (addrs tr')"
          and mr: "map_tree snd tr' = map_tree snd r" and ar: "set (addrs tr') = {brk w2 ..< brk w4}"
          by auto
        let ?N2 = "\<lparr>value = x, left = cl, right = cr\<rparr>"
        let ?w5 = "w4\<lparr>nodes := (nodes w4)(?k \<mapsto> ?N2)\<rparr>"
        let ?t' = "Br tl' (?k, x) tr'"
        have sr: "set_right ?k cr w4 = Some ?w5" using k4 by (simp add: set_right_def)
        have t1: "tree_at (nodes ?w5) cl tl'"
          using al by (intro tree_at_frame[OF tl4]) auto
        have t2: "tree_at (nodes ?w5) cr tr'"
          using ar brk2 by (intro tree_at_frame[OF tr']) auto
        have tt: "tree_at (nodes ?w5) (Some ?k) ?t'" using t1 t2 by simp
        have dd: "distinct (addrs ?t')" using dl dr al ar brk2 by auto
        have mm: "map_tree snd ?t' = map_tree snd (Br l ax r)" using ml mr ax by simp
        have aa: "set (addrs ?t') = {?k ..< brk ?w5}" using al ar brk2 brk4 by auto
        have f5: "\<forall>p. brk ?w5 \<le> p \<longrightarrow> nodes ?w5 p = None"
          using d4(4) brk2 brk4 by auto
        have b5: "\<forall>p. p < brk w \<longrightarrow> nodes ?w5 p = nodes w p" using below4 by simp
        have "clone_post w (Br l ax r) (Inr (Some ?k)) ?w5"
          unfolding clone_post_def
          using tt dd mm aa f5 b5 d2(1,2) d4(1,2) brk2 brk4 af4
          apply (intro conjI)
                apply simp apply simp apply simp apply simp apply simp
           apply (simp add: no_array_fault_def)
          apply (simp del: tree_at.simps addrs_simps)
          apply (rule exI[of _ ?t'])
          apply (simp del: tree_at.simps addrs_simps)
          done
        then show ?thesis using start' Inr sr by simp
      qed
    qed
  qed
qed

lemma clone_failure_frees_copies:
  assumes "tree_at (nodes w) n t" and "\<forall>p. brk w \<le> p \<longrightarrow> nodes w p = None"
    and "no_array_fault w" and "clone_nodes n w = Some (Inl e, w')"
  shows "nodes w' = nodes w"
proof
  fix p
  from clone_nodes_tree[OF assms(1,2)] assms(4) have post: "clone_post w t (Inl e) w'"
    by simp
  show "nodes w' p = nodes w p"
  proof (cases "p < brk w")
    case True
    then show ?thesis using clone_postD(5)[OF post] by simp
  next
    case False
    then show ?thesis using clone_post_InlD[OF post assms(3), of p] assms(2) by simp
  qed
qed

text \<open>
  C9, at the failing input. Copying the queue of \<open>leak_world\<close> allocates the
  copy of the root at address 2; the copy of its child fails; the handler of
  \<^verbatim>\<open>clone_nodes\<close> calls \<^verbatim>\<open>clear_nodes(copy)\<close>, whose own allocation of the work
  stack throws before any node is freed. The exception leaves the constructor
  and the node at address 2 stays allocated, owned by no queue.
  (\<open>clone_failure_frees_copies\<close> above: when no allocation of a work stack
  fails, every copy is freed.)
\<close>

theorem clone_cleanup_failure_leaks:
  "exec less_cmp (CopyConstruct 1 0) leak_world =
     Some (Inl (foreign 1),
       leak_world\<lparr>nodes := (nodes leak_world)(2 \<mapsto> \<lparr>value = 5, left = None, right = None\<rparr>),
                  node_faults := [], array_faults := [], brk := 3\<rparr>)"
  by (simp add: priority_queue_copy_def leak_world_def clone_nodes.simps new_Node_def
      clone_handler_def clear_nodes_def new_array_def)

text \<open>
  C8. When the deep copy of the source fails during a copy-assignment to
  another queue, the assignment ends with that exception in the world the copy
  left: no queue object has changed (root, count and comparison of the
  destination are as before), no node that existed before the call has been
  written or freed, so the destination's tree is intact: nothing of the old
  graph is discarded before the copy has succeeded.
\<close>

theorem assign_clone_failure:
  assumes "this \<noteq> other" and "queues w this = Some q" and "queues w other = Some ot"
    and "tree_at (nodes w) (root ot) t" and "\<forall>p. brk w \<le> p \<longrightarrow> nodes w p = None"
    and "clone_nodes (root ot) w = Some (Inl e, w1)"
  shows "assign this other w = Some (Inl e, w1) \<and>
         queues w1 = queues w \<and>
         (\<forall>p. p < brk w \<longrightarrow> nodes w1 p = nodes w p) \<and>
         (\<forall>td. tree_at (nodes w) (root q) td \<longrightarrow> tree_at (nodes w1) (root q) td)"
proof -
  from clone_nodes_tree[OF assms(4,5)] assms(6) have post: "clone_post w t (Inl e) w1"
    by simp
  note d = clone_postD[OF post]
  have rt: "root ot \<noteq> None"
  proof
    assume "root ot = None"
    then have "clone_nodes (root ot) w = Some (Inr None, w)"
      by (subst clone_nodes.simps) simp
    then show False using assms(6) by simp
  qed
  have a: "assign this other w = Some (Inl e, w1)"
    using assms(1,3,6) rt by (auto simp: assign_def)
  have fr: "\<forall>p. p < brk w \<longrightarrow> nodes w1 p = nodes w p" using d(5) by simp
  have "tree_at (nodes w1) (root q) td" if "tree_at (nodes w) (root q) td" for td
    using tree_at_frame_below[OF that assms(5) fr] .
  then show ?thesis using a d(1) fr by blast
qed

theorem assign_clone_failure_witness:
  "(0::nat) \<noteq> 1 \<and>
   queues assign_world 0 = Some \<lparr>root = Some 0, elementCount = 1, comp = less_cmp\<rparr> \<and>
   queues assign_world 1 = Some \<lparr>root = Some 1, elementCount = 1, comp = less_cmp\<rparr> \<and>
   tree_at (nodes assign_world) (root \<lparr>root = Some 1, elementCount = 1, comp = less_cmp\<rparr>)
     (Br Leaf (1, 8) Leaf) \<and>
   nodes assign_world 2 = None \<and>
   clone_nodes (root \<lparr>root = Some 1, elementCount = 1, comp = less_cmp\<rparr>) assign_world
     = Some (Inl (foreign 1), assign_world\<lparr>node_faults := []\<rparr>) \<and>
   assign 0 1 assign_world = Some (Inl (foreign 1), assign_world\<lparr>node_faults := []\<rparr>) \<and>
   queues (assign_world\<lparr>node_faults := []\<rparr>) = queues assign_world \<and>
   nodes (assign_world\<lparr>node_faults := []\<rparr>) 0 = nodes assign_world 0 \<and>
   tree_at (nodes (assign_world\<lparr>node_faults := []\<rparr>))
     (root \<lparr>root = Some 0, elementCount = 1, comp = less_cmp\<rparr>) (Br Leaf (0, 5) Leaf)"
proof -
  let ?q = "\<lparr>root = Some 0, elementCount = 1, comp = less_cmp\<rparr>"
  let ?ot = "\<lparr>root = Some 1, elementCount = 1, comp = less_cmp\<rparr>"
  let ?w1 = "assign_world\<lparr>node_faults := []\<rparr>"
  have ne: "(0::nat) \<noteq> 1" by simp
  have q: "queues assign_world 0 = Some ?q"
    by (simp add: assign_world_def two_queues_def)
  have ot: "queues assign_world 1 = Some ?ot"
    by (simp add: assign_world_def two_queues_def)
  have t: "tree_at (nodes assign_world) (root ?ot) (Br Leaf (1, 8) Leaf)"
    by (simp add: assign_world_def two_queues_def two_nodes_def)
  have fresh: "\<forall>p. brk assign_world \<le> p \<longrightarrow> nodes assign_world p = None"
    by (simp add: assign_world_def two_queues_def two_nodes_def)
  have cl: "clone_nodes (root ?ot) assign_world = Some (Inl (foreign 1), ?w1)"
    by (simp add: clone_nodes.simps new_Node_def assign_world_def two_queues_def two_nodes_def
        with_env_def)
  have td: "tree_at (nodes assign_world) (root ?q) (Br Leaf (0, 5) Leaf)"
    by (simp add: assign_world_def two_queues_def two_nodes_def)
  note th = assign_clone_failure[OF ne q ot t fresh cl]
  from th have c1: "assign 0 1 assign_world = Some (Inl (foreign 1), ?w1)"
    and c2: "queues ?w1 = queues assign_world" by blast+
  from th have c3: "nodes ?w1 0 = nodes assign_world 0"
    by (simp add: assign_world_def)
  from th td have c4: "tree_at (nodes ?w1) (root ?q) (Br Leaf (0, 5) Leaf)" by blast
  have f2: "nodes assign_world 2 = None"
    by (simp add: assign_world_def two_queues_def two_nodes_def)
  show ?thesis
    by (intro conjI ne q ot t f2 cl c1 c2 c3 c4)
qed

section \<open>Heap order under the merge\<close>

lemma strict_weak_order_asymmetric: "strict_weak_order lt \<Longrightarrow> asymmetric lt"
  unfolding strict_weak_order_def asymmetric_def by blast

lemma strict_weak_order_negtrans:
  "strict_weak_order lt \<Longrightarrow> \<not> lt x y \<Longrightarrow> \<not> lt y z \<Longrightarrow> \<not> lt x z"
  unfolding strict_weak_order_def by blast

lemma agreesD: "agrees cmp lt \<Longrightarrow> cmp c x y = (Inr b, c') \<Longrightarrow> b = lt x y"
  unfolding agrees_def
  by (erule allE[where x=c], erule allE[where x=x], erule allE[where x=y]) simp

lemma child_ok_merge:
  "spec_merge (on_value cmp) c ta tb = (Inr t, c') \<Longrightarrow> child_ok lt v ta \<Longrightarrow> child_ok lt v tb \<Longrightarrow>
   child_ok lt v t"
  by (cases ta; cases tb)
     (auto simp: on_value_def split: prod.splits sum.splits if_splits)

lemma spec_merge_heap_ordered_aux:
  "f = on_value cmp \<Longrightarrow> agrees cmp lt \<Longrightarrow> asymmetric lt \<Longrightarrow>
   heap_ordered lt ta \<Longrightarrow> heap_ordered lt tb \<Longrightarrow>
   spec_merge f c ta tb = (Inr t, c') \<Longrightarrow> heap_ordered lt t"
proof (induction f c ta tb arbitrary: t c' rule: spec_merge.induct)
  case (3 f c l1 x r1 l2 y r2)
  obtain pa xa where x: "x = (pa, xa)" by (cases x)
  obtain pb yb where y: "y = (pb, yb)" by (cases y)
  from "3.prems"(6) obtain below c1 where f: "f c x y = (Inr below, c1)"
    by (cases "f c x y"; cases "fst (f c x y)") (auto split: prod.splits sum.splits)
  have "cmp c xa yb = (Inr below, c1)"
    using f "3.prems"(1) x y by (simp add: on_value_def)
  then have b: "below = lt xa yb" using agreesD[OF "3.prems"(2)] by blast
  show ?case
  proof (cases below)
    case True
    from "3.prems"(6) f True obtain m where
      m: "spec_merge f c1 r2 (Br l1 x r1) = (Inr m, c')" and t: "t = Br m y l2"
      by (auto split: prod.splits sum.splits)
    have hm: "heap_ordered lt m"
      using "3.IH"(1)[OF f[symmetric] refl True "3.prems"(1,2,3) _ _ m] "3.prems"(4,5) y by auto
    have "\<not> lt yb xa" using b True "3.prems"(3) by (auto simp: asymmetric_def)
    then have "child_ok lt yb (Br l1 x r1)" using x by simp
    moreover have "child_ok lt yb r2" using "3.prems"(5) y by simp
    ultimately have "child_ok lt yb m"
      using child_ok_merge[OF m[unfolded "3.prems"(1)]] by blast
    then show ?thesis using t hm "3.prems"(5) y by simp
  next
    case False
    from "3.prems"(6) f False obtain m where
      m: "spec_merge f c1 r1 (Br l2 y r2) = (Inr m, c')" and t: "t = Br m x l1"
      by (auto split: prod.splits sum.splits)
    have hm: "heap_ordered lt m"
      using "3.IH"(2)[OF f[symmetric] refl False "3.prems"(1,2,3) _ _ m] "3.prems"(4,5) x by auto
    have "\<not> lt xa yb" using b False by simp
    then have "child_ok lt xa (Br l2 y r2)" using y by simp
    moreover have "child_ok lt xa r1" using "3.prems"(4) x by simp
    ultimately have "child_ok lt xa m"
      using child_ok_merge[OF m[unfolded "3.prems"(1)]] by blast
    then show ?thesis using t hm "3.prems"(4) x by simp
  qed
qed auto

lemma heap_ordered_root_max:
  assumes "strict_weak_order lt" "heap_ordered lt t" "child_ok lt v t" "y \<in> set (elems t)"
  shows "\<not> lt v y"
  using assms(2-)
proof (induction t arbitrary: v)
  case Leaf
  then show ?case by (simp add: elems_def)
next
  case (Br l ax r)
  obtain a x where ax: "ax = (a, x)" by (cases ax)
  have vx: "\<not> lt v x" using Br.prems(2) ax by simp
  from Br.prems(3) ax consider "y = x" | "y \<in> set (elems l)" | "y \<in> set (elems r)"
    by (auto simp: elems_def)
  then show ?case
  proof cases
    case 1
    then show ?thesis using vx by simp
  next
    case 2
    have "\<not> lt x y" using Br.IH(1)[of x] Br.prems(1) ax 2 by simp
    then show ?thesis using strict_weak_order_negtrans[OF assms(1) vx] by blast
  next
    case 3
    have "\<not> lt x y" using Br.IH(2)[of x] Br.prems(1) ax 3 by simp
    then show ?thesis using strict_weak_order_negtrans[OF assms(1) vx] by blast
  qed
qed

lemma heap_ordered_map:
  "map_tree snd t' = map_tree snd t \<Longrightarrow> heap_ordered lt t' = heap_ordered lt t"
proof (induction t' arbitrary: t)
  case Leaf
  then show ?case by (cases t) auto
next
  case (Br l' ax' r')
  then obtain l ax r where t: "t = Br l ax r" by (cases t) auto
  obtain a' x' where ax': "ax' = (a', x')" by (cases ax')
  obtain a x where ax: "ax = (a, x)" by (cases ax)
  from Br.prems t ax ax' have e: "map_tree snd l' = map_tree snd l" "map_tree snd r' = map_tree snd r" "x' = x"
    by auto
  have c: "child_ok lt x s' = child_ok lt x s" if "map_tree snd s' = map_tree snd s" for s s' :: "(addr \<times> 'a) tree"
    using that by (cases s; cases s') auto
  show ?case using Br.IH(1)[OF e(1)] Br.IH(2)[OF e(2)] c[OF e(1)] c[OF e(2)] t ax ax' e(3) by simp
qed

lemma spec_merge_heap_ordered:
  assumes "agrees cmp lt" "asymmetric lt" "heap_ordered lt ta" "heap_ordered lt tb"
    "spec_merge (on_value cmp) c ta tb = (Inr t, c')"
  shows "heap_ordered lt t"
  using spec_merge_heap_ordered_aux[OF refl assms] .

lemma merge_nodes_heap_ordered:
  assumes "agrees cmp lt" "asymmetric lt"
    and "tree_at (nodes w) a ta" "tree_at (nodes w) b tb" "distinct (addrs ta @ addrs tb)"
    and "heap_ordered lt ta" "heap_ordered lt tb"
  shows "\<exists>res w'. merge_nodes cmp a b w = Some (res, w') \<and>
           (never_fails cmp G \<and> cstate w \<in> G \<longrightarrow> (\<exists>r. res = Inr r)) \<and>
           (\<forall>r. res = Inr r \<longrightarrow>
              (\<exists>t. tree_at (nodes w') r t \<and> heap_ordered lt t \<and>
                   mset (labels t) = mset (labels ta) + mset (labels tb)))"
proof -
  let ?sm = "spec_merge (on_value cmp) (cstate w) ta tb"
  from merge_nodes_refines[OF assms(3,4,5), of cmp] obtain res w' where
    m: "merge_nodes cmp a b w = Some (res, w')" and post: "merge_post w ta tb ?sm res w'"
    by blast
  have "(never_fails cmp G \<and> cstate w \<in> G \<longrightarrow> (\<exists>r. res = Inr r)) \<and>
        (\<forall>r. res = Inr r \<longrightarrow>
              (\<exists>t. tree_at (nodes w') r t \<and> heap_ordered lt t \<and>
                   mset (labels t) = mset (labels ta) + mset (labels tb)))"
  proof (cases "fst ?sm")
    case (Inl e)
    then have r: "res = Inl e" using post by (simp add: merge_post_def)
    have "\<not> (never_fails cmp G \<and> cstate w \<in> G)"
    proof
      assume nf: "never_fails cmp G \<and> cstate w \<in> G"
      from spec_merge_never_fails[OF conjunct1[OF nf] conjunct2[OF nf], of ta tb]
      obtain t c' where "?sm = (Inr t, c')" by blast
      then show False using Inl by simp
    qed
    then show ?thesis using r by simp
  next
    case (Inr t)
    then have sm: "?sm = (Inr t, snd ?sm)" by (metis prod.collapse)
    from post Inr obtain r where r: "res = Inr r" "tree_at (nodes w') r t"
      by (auto simp: merge_post_def)
    have "heap_ordered lt t" using spec_merge_heap_ordered[OF assms(1,2,6,7) sm] .
    moreover have "mset (labels t) = mset (labels ta) + mset (labels tb)"
      using spec_merge_labels[OF sm] .
    ultimately show ?thesis using r by auto
  qed
  then show ?thesis using m by blast
qed

section \<open>Every call that returns keeps the queues consistent\<close>

lemma world_inv_step:
  assumes inv: "world_inv T w"
    and same: "\<forall>j. j \<notin> I \<longrightarrow> queues w' j = queues w j \<and> T' j = T j"
    and new: "\<forall>i \<in> I. \<forall>q'. queues w' i = Some q' \<longrightarrow> queue_inv w' q' (T' i) \<and> set (addrs (T' i)) \<subseteq> A"
    and newdj: "\<forall>i \<in> I. \<forall>j \<in> I. i \<noteq> j \<longrightarrow> queues w' i \<noteq> None \<longrightarrow> queues w' j \<noteq> None \<longrightarrow>
                  set (addrs (T' i)) \<inter> set (addrs (T' j)) = {}"
    and fr: "\<forall>p. p \<notin> A \<longrightarrow> nodes w' p = nodes w p"
    and sep: "\<forall>j. j \<notin> I \<longrightarrow> queues w j \<noteq> None \<longrightarrow> set (addrs (T j)) \<inter> A = {}"
    and fresh: "\<forall>p. brk w' \<le> p \<longrightarrow> nodes w' p = None"
  shows "world_inv T' w'"
  unfolding world_inv_def
proof (intro conjI allI impI)
  fix i q assume q: "queues w' i = Some q"
  show "queue_inv w' q (T' i)"
  proof (cases "i \<in> I")
    case True
    then show ?thesis using new q by blast
  next
    case False
    then have q0: "queues w i = Some q" and t: "T' i = T i" using same q by auto
    then have qi: "queue_inv w q (T i)" using inv by (auto simp: world_inv_def)
    have "set (addrs (T i)) \<inter> A = {}" using sep False q0 by auto
    then have "\<forall>a \<in> set (addrs (T i)). nodes w' a = nodes w a" using fr by auto
    then show ?thesis using qi t
      by (auto simp: queue_inv_def owned_tree_def intro: tree_at_frame)
  qed
next
  fix i j assume ij: "i \<noteq> j" and li: "queues w' i \<noteq> None" and lj: "queues w' j \<noteq> None"
  show "set (addrs (T' i)) \<inter> set (addrs (T' j)) = {}"
  proof (cases "i \<in> I"; cases "j \<in> I")
    assume "i \<in> I" "j \<in> I"
    then show ?thesis using newdj ij li lj by blast
  next
    assume i: "i \<in> I" and j: "j \<notin> I"
    from i li new have "set (addrs (T' i)) \<subseteq> A" by auto
    moreover from j lj same sep have "set (addrs (T' j)) \<inter> A = {}" by auto
    ultimately show ?thesis by blast
  next
    assume i: "i \<notin> I" and j: "j \<in> I"
    from j lj new have "set (addrs (T' j)) \<subseteq> A" by auto
    moreover from i li same sep have "set (addrs (T' i)) \<inter> A = {}" by auto
    ultimately show ?thesis by blast
  next
    assume i: "i \<notin> I" and j: "j \<notin> I"
    then show ?thesis using same inv ij li lj by (auto simp: world_inv_def)
  qed
next
  fix p assume "brk w' \<le> p"
  then show "nodes w' p = None" using fresh by simp
qed

lemma world_invD:
  assumes "world_inv T w"
  shows "\<And>i q. queues w i = Some q \<Longrightarrow> queue_inv w q (T i)"
    and "\<And>i j qi qj. i \<noteq> j \<Longrightarrow> queues w i = Some qi \<Longrightarrow> queues w j = Some qj \<Longrightarrow>
           set (addrs (T i)) \<inter> set (addrs (T j)) = {}"
    and "\<And>p. brk w \<le> p \<Longrightarrow> nodes w p = None"
  using assms by (auto simp: world_inv_def)

lemma queue_tree_below_brk:
  assumes "world_inv T w" "queues w i = Some q" "a \<in> set (addrs (T i))"
  shows "a < brk w"
proof -
  have "tree_at (nodes w) (root q) (T i)"
    using world_invD(1)[OF assms(1,2)] by (simp add: queue_inv_def owned_tree_def)
  then show ?thesis using tree_at_below_brk assms(1,3) world_invD(3)[OF assms(1)] by blast
qed

lemma inv_after_same: "world_inv T w \<Longrightarrow> inv_after dflt lt T w w"
  unfolding inv_after_def by blast

lemma ctor_inv:
  assumes inv: "world_inv T w" and ex: "priority_queue_ctor dflt this w = Some (Inr (), w')"
  shows "inv_after dflt lt T w w'"
proof -
  from ex have n: "queues w this = None"
    and w': "w' = w\<lparr>queues := (queues w)(this \<mapsto> \<lparr>root = None, elementCount = 0, comp = dflt\<rparr>)\<rparr>"
    by (auto simp: priority_queue_ctor_def split: option.splits)
  let ?T = "T(this := Leaf)"
  have "world_inv ?T w'"
    by (rule world_inv_step[OF inv, where I="{this}" and A="{}"])
       (use w' world_invD(3)[OF inv] in \<open>auto simp: queue_inv_def owned_tree_def\<close>)
  moreover have "ordered_world dflt lt ?T w'" if "ordered_world dflt lt T w"
    using that w' by (auto simp: ordered_world_def)
  ultimately show ?thesis unfolding inv_after_def by blast
qed

lemma fresh_of_values:
  assumes "\<forall>p. brk w \<le> p \<longrightarrow> nodes w p = None"
    and "\<forall>p. p \<noteq> a \<longrightarrow> map_option value (nodes w' p) = map_option value (nodes w p)"
    and "a < k" "brk w \<le> k"
  shows "\<forall>p. k \<le> p \<longrightarrow> nodes w' p = None"
proof (intro allI impI)
  fix p assume "k \<le> p"
  then have "p \<noteq> a" "brk w \<le> p" using assms(3,4) by auto
  then have "map_option value (nodes w' p) = None" using assms(1,2) by simp
  then show "nodes w' p = None" by simp
qed

lemma push_inv:
  assumes inv: "world_inv T w" and ex: "push this v w = Some (Inr (), w')"
  shows "inv_after dflt lt T w w'"
proof -
  from ex obtain q where q: "queues w this = Some q"
    by (auto simp: push_def split: option.splits)
  note qi = world_invD(1)[OF inv q]
  note fresh = world_invD(3)[OF inv]
  let ?tn = "Br Leaf (brk w, v) Leaf"
  let ?sm = "spec_merge (on_value (comp q)) (cstate w) (T this) ?tn"
  have nf: "\<not> (\<exists>x rest. node_faults w = Some x # rest)"
  proof
    assume "\<exists>x rest. node_faults w = Some x # rest"
    then show False using ex q by (auto simp: push_def new_Node_def)
  qed
  have nfc: "(case node_faults w of Some x # rest \<Rightarrow> P x rest | _ \<Rightarrow> Q) = Q" for P and Q :: bool
    using nf by (auto split: list.splits option.splits)
  from push_effect[OF q qi, of v] fresh ex
  have eff: "brk w' = Suc (brk w) \<and>
        (case fst ?sm of
           Inl e \<Rightarrow> False
         | Inr t \<Rightarrow>
             (\<exists>p. queues w' = (queues w)(this \<mapsto> q\<lparr>root := p, elementCount := elementCount q + 1\<rparr>) \<and>
                  tree_at (nodes w') p t) \<and>
             (\<forall>p. p \<notin> set (addrs (T this)) \<and> p \<noteq> brk w \<longrightarrow> nodes w' p = nodes w p) \<and>
             (\<forall>p. p \<noteq> brk w \<longrightarrow> map_option value (nodes w' p) = map_option value (nodes w p)))"
    by (auto simp: nfc split: sum.splits)
  then obtain t where t: "fst ?sm = Inr t" by (cases "fst ?sm") auto
  then have sm: "?sm = (Inr t, snd ?sm)" by (metis prod.collapse)
  from eff t obtain p where b': "brk w' = Suc (brk w)"
    and qs: "queues w' = (queues w)(this \<mapsto> q\<lparr>root := p, elementCount := elementCount q + 1\<rparr>)"
    and tp: "tree_at (nodes w') p t"
    and fr: "\<forall>p. p \<notin> set (addrs (T this)) \<and> p \<noteq> brk w \<longrightarrow> nodes w' p = nodes w p"
    and vals: "\<forall>p. p \<noteq> brk w \<longrightarrow> map_option value (nodes w' p) = map_option value (nodes w p)"
    by auto
  have k0: "brk w \<notin> set (addrs (T this))"
    using queue_tree_below_brk[OF inv q] by blast
  have d: "distinct (addrs (T this) @ addrs ?tn)"
    using qi k0 by (simp add: queue_inv_def owned_tree_def)
  have at: "set (addrs t) = set (addrs (T this)) \<union> {brk w}"
    using spec_merge_addrs[OF sm] by simp
  let ?T = "T(this := t)"
  let ?A = "set (addrs (T this)) \<union> {brk w}"
  have newq: "queue_inv w' (q\<lparr>root := p, elementCount := elementCount q + 1\<rparr>) t"
    using tp spec_merge_distinct[OF sm d] spec_merge_size[OF sm] qi
    by (simp add: queue_inv_def owned_tree_def)
  have sep: "\<forall>j. j \<notin> {this} \<longrightarrow> queues w j \<noteq> None \<longrightarrow> set (addrs (T j)) \<inter> ?A = {}"
  proof (intro allI impI)
    fix j assume j: "j \<notin> {this}" and l: "queues w j \<noteq> None"
    then obtain qj where qj: "queues w j = Some qj" by auto
    have "set (addrs (T j)) \<inter> set (addrs (T this)) = {}"
      using world_invD(2)[OF inv _ qj q] j by auto
    moreover have "brk w \<notin> set (addrs (T j))"
      using queue_tree_below_brk[OF inv qj] by blast
    ultimately show "set (addrs (T j)) \<inter> ?A = {}" by auto
  qed
  have fr': "\<forall>p. brk w' \<le> p \<longrightarrow> nodes w' p = None"
    using fresh_of_values[OF _ vals, of "brk w'"] fresh b' by simp
  have wi: "world_inv ?T w'"
    by (rule world_inv_step[OF inv, where I="{this}" and A="?A"])
       (use qs newq at fr sep fr' in auto)
  have "ordered_world dflt lt ?T w'"
    if a: "agrees dflt lt" "asymmetric lt" and o: "ordered_world dflt lt T w"
  proof -
    from o q have c: "comp q = dflt" and h: "heap_ordered lt (T this)"
      by (auto simp: ordered_world_def)
    have "heap_ordered lt t"
      using spec_merge_heap_ordered[OF a(1)[folded c] a(2) h _ sm] by simp
    then show ?thesis using o qs c by (auto simp: ordered_world_def)
  qed
  then show ?thesis using wi unfolding inv_after_def by blast
qed

lemma pop_inv:
  assumes inv: "world_inv T w" and ex: "pop this w = Some (Inr (), w')"
  shows "inv_after dflt lt T w w'"
proof -
  from ex obtain q where q: "queues w this = Some q"
    by (auto simp: pop_def empty_pq_def split: option.splits)
  note qi = world_invD(1)[OF inv q]
  note fresh = world_invD(3)[OF inv]
  from pop_effect[OF q qi] ex obtain l ax r0 where t0: "T this = Br l ax r0"
    by (cases "T this") auto
  let ?sm = "spec_merge (on_value (comp q)) (cstate w) l r0"
  from pop_effect[OF q qi] ex t0
  have eff: "brk w' = brk w \<and>
        (case fst ?sm of
           Inl e \<Rightarrow> False
         | Inr t \<Rightarrow>
             (\<exists>p. queues w' = (queues w)(this \<mapsto> q\<lparr>root := p, elementCount := elementCount q - 1\<rparr>) \<and>
                  tree_at (nodes w') p t) \<and>
             nodes w' (fst ax) = None \<and>
             (\<forall>p. p \<notin> set (addrs (T this)) \<longrightarrow> nodes w' p = nodes w p) \<and>
             (\<forall>p. p \<noteq> fst ax \<longrightarrow> map_option value (nodes w' p) = map_option value (nodes w p)))"
    by (auto split: sum.splits)
  then obtain t where t: "fst ?sm = Inr t" by (cases "fst ?sm") auto
  then have sm: "?sm = (Inr t, snd ?sm)" by (metis prod.collapse)
  from eff t obtain p where b': "brk w' = brk w"
    and qs: "queues w' = (queues w)(this \<mapsto> q\<lparr>root := p, elementCount := elementCount q - 1\<rparr>)"
    and tp: "tree_at (nodes w') p t"
    and gone: "nodes w' (fst ax) = None"
    and fr: "\<forall>p. p \<notin> set (addrs (T this)) \<longrightarrow> nodes w' p = nodes w p"
    and vals: "\<forall>p. p \<noteq> fst ax \<longrightarrow> map_option value (nodes w' p) = map_option value (nodes w p)"
    by auto
  obtain a x where ax: "ax = (a, x)" by (cases ax)
  have d: "distinct (a # addrs l @ addrs r0)" and cnt: "elementCount q = Suc (size l + size r0)"
    using qi t0 ax by (auto simp: queue_inv_def owned_tree_def)
  have d': "distinct (addrs l @ addrs r0)" using d by simp
  have at: "set (addrs t) = set (addrs l) \<union> set (addrs r0)"
    using spec_merge_addrs[OF sm] by simp
  let ?T = "T(this := t)"
  let ?A = "set (addrs (T this))"
  have newq: "queue_inv w' (q\<lparr>root := p, elementCount := elementCount q - 1\<rparr>) t"
    using tp spec_merge_distinct[OF sm d'] spec_merge_size[OF sm] cnt
    by (simp add: queue_inv_def owned_tree_def)
  have sep: "\<forall>j. j \<notin> {this} \<longrightarrow> queues w j \<noteq> None \<longrightarrow> set (addrs (T j)) \<inter> ?A = {}"
  proof (intro allI impI)
    fix j assume j: "j \<notin> {this}" and l: "queues w j \<noteq> None"
    then obtain qj where qj: "queues w j = Some qj" by auto
    show "set (addrs (T j)) \<inter> ?A = {}"
      using world_invD(2)[OF inv _ qj q] j by auto
  qed
  have fr': "\<forall>p. brk w' \<le> p \<longrightarrow> nodes w' p = None"
  proof (intro allI impI)
    fix p assume "brk w' \<le> p"
    then have n: "nodes w p = None" using fresh b' by simp
    show "nodes w' p = None"
    proof (cases "p = fst ax")
      case True then show ?thesis using gone by simp
    next
      case False
      then have "map_option value (nodes w' p) = None" using vals n by simp
      then show ?thesis by simp
    qed
  qed
  have wi: "world_inv ?T w'"
    by (rule world_inv_step[OF inv, where I="{this}" and A="?A"])
       (use qs newq at fr sep fr' t0 ax in auto)
  have "ordered_world dflt lt ?T w'"
    if a: "agrees dflt lt" "asymmetric lt" and o: "ordered_world dflt lt T w"
  proof -
    from o q have c: "comp q = dflt" and h: "heap_ordered lt (T this)"
      by (auto simp: ordered_world_def)
    have "heap_ordered lt l" "heap_ordered lt r0" using h t0 ax by auto
    then have "heap_ordered lt t"
      using spec_merge_heap_ordered[OF a(1)[folded c] a(2) _ _ sm] by simp
    then show ?thesis using o qs c by (auto simp: ordered_world_def)
  qed
  then show ?thesis using wi unfolding inv_after_def by blast
qed

lemma merge_pq_inv:
  assumes inv: "world_inv T w" and ex: "merge_pq this other w = Some (Inr (), w')"
  shows "inv_after dflt lt T w w'"
proof (cases "this = other")
  case True
  then have "w' = w" using ex by (simp add: merge_pq_def)
  then show ?thesis using inv_after_same[OF inv] by simp
next
  case False
  from ex False obtain qa qb where qa: "queues w this = Some qa" and qb: "queues w other = Some qb"
    by (auto simp: merge_pq_def split: option.splits)
  note ia = world_invD(1)[OF inv qa] and ib = world_invD(1)[OF inv qb]
  note dj = world_invD(2)[OF inv False qa qb]
  note fresh = world_invD(3)[OF inv]
  let ?sm = "spec_merge (on_value (comp qa)) (cstate w) (T this) (T other)"
  from merge_pq_effect[OF False qa qb ia ib dj] ex
  have eff: "w'\<lparr>nodes := nodes w, queues := queues w\<rparr> = w\<lparr>cstate := snd ?sm\<rparr> \<and>
     (case fst ?sm of
        Inl e \<Rightarrow> False
      | Inr t \<Rightarrow>
          (\<exists>p. queues w' = (queues w)
                 (this \<mapsto> qa\<lparr>root := p, elementCount := elementCount qa + elementCount qb\<rparr>,
                  other \<mapsto> qb\<lparr>root := None, elementCount := 0\<rparr>) \<and>
               tree_at (nodes w') p t) \<and>
          (\<forall>p. p \<notin> set (addrs (T this) @ addrs (T other)) \<longrightarrow> nodes w' p = nodes w p) \<and>
          (\<forall>p. map_option value (nodes w' p) = map_option value (nodes w p)))"
    by (auto split: sum.splits)
  then obtain t where t: "fst ?sm = Inr t" by (cases "fst ?sm") auto
  then have sm: "?sm = (Inr t, snd ?sm)" by (metis prod.collapse)
  from eff t obtain p where
    rest: "w'\<lparr>nodes := nodes w, queues := queues w\<rparr> = w\<lparr>cstate := snd ?sm\<rparr>"
    and qs: "queues w' = (queues w)
                 (this \<mapsto> qa\<lparr>root := p, elementCount := elementCount qa + elementCount qb\<rparr>,
                  other \<mapsto> qb\<lparr>root := None, elementCount := 0\<rparr>)"
    and tp: "tree_at (nodes w') p t"
    and fr: "\<forall>p. p \<notin> set (addrs (T this) @ addrs (T other)) \<longrightarrow> nodes w' p = nodes w p"
    and vals: "\<forall>p. map_option value (nodes w' p) = map_option value (nodes w p)"
    by auto
  have b': "brk w' = brk w"
    using rest by (metis (no_types, lifting) world.select_convs(6) world.surjective world.update_convs(1,2,3))
  have d: "distinct (addrs (T this) @ addrs (T other))"
    using ia ib dj by (auto simp: queue_inv_def owned_tree_def)
  have at: "set (addrs t) = set (addrs (T this)) \<union> set (addrs (T other))"
    using spec_merge_addrs[OF sm] by simp
  let ?T = "T(this := t, other := Leaf)"
  let ?A = "set (addrs (T this)) \<union> set (addrs (T other))"
  have newa: "queue_inv w' (qa\<lparr>root := p, elementCount := elementCount qa + elementCount qb\<rparr>) t"
    using tp spec_merge_distinct[OF sm d] spec_merge_size[OF sm] ia ib
    by (simp add: queue_inv_def owned_tree_def)
  have newb: "queue_inv w' (qb\<lparr>root := None, elementCount := 0\<rparr>) Leaf"
    by (simp add: queue_inv_def owned_tree_def)
  have sep: "\<forall>j. j \<notin> {this, other} \<longrightarrow> queues w j \<noteq> None \<longrightarrow> set (addrs (T j)) \<inter> ?A = {}"
  proof (intro allI impI)
    fix j assume j: "j \<notin> {this, other}" and l: "queues w j \<noteq> None"
    then obtain qj where qj: "queues w j = Some qj" by auto
    show "set (addrs (T j)) \<inter> ?A = {}"
      using world_invD(2)[OF inv _ qj qa] world_invD(2)[OF inv _ qj qb] j by auto
  qed
  have fr': "\<forall>p. brk w' \<le> p \<longrightarrow> nodes w' p = None"
  proof (intro allI impI)
    fix p assume "brk w' \<le> p"
    then have "map_option value (nodes w' p) = None" using vals fresh b' by simp
    then show "nodes w' p = None" by simp
  qed
  have wi: "world_inv ?T w'"
    by (rule world_inv_step[OF inv, where I="{this, other}" and A="?A"])
       (use qs newa newb at fr sep fr' False in auto)
  have "ordered_world dflt lt ?T w'"
    if a: "agrees dflt lt" "asymmetric lt" and o: "ordered_world dflt lt T w"
  proof -
    from o qa qb have c: "comp qa = dflt" "comp qb = dflt"
      and h: "heap_ordered lt (T this)" "heap_ordered lt (T other)"
      by (auto simp: ordered_world_def)
    have "heap_ordered lt t"
      using spec_merge_heap_ordered[OF a(1)[folded c(1)] a(2) h sm] .
    then show ?thesis using o qs c False by (auto simp: ordered_world_def)
  qed
  then show ?thesis using wi unfolding inv_after_def by blast
qed

lemma size_map_tree: "size (map_tree f t) = size t"
  by (induction t) auto

lemma size_map_tree_eq:
  "map_tree f t' = map_tree f t \<Longrightarrow> size t' = size t"
  using size_map_tree[of f t'] size_map_tree[of f t] by simp

lemma clone_root_post:
  assumes t: "tree_at (nodes w) (root ot) t" and fresh: "\<forall>p. brk w \<le> p \<longrightarrow> nodes w p = None"
    and cl: "(case root ot of None \<Rightarrow> Some (Inr None, w) | Some p \<Rightarrow> clone_nodes (root ot) w)
               = Some (Inr r, w1)"
  shows "clone_post w t (Inr r) w1"
proof -
  have "clone_nodes (root ot) w = Some (Inr r, w1)"
  proof (cases "root ot")
    case None
    then show ?thesis using cl by (subst clone_nodes.simps) simp
  next
    case (Some p)
    then show ?thesis using cl by simp
  qed
  then show ?thesis using clone_nodes_tree[OF t fresh] by simp
qed

lemma copy_inv:
  assumes inv: "world_inv T w" and ex: "priority_queue_copy this other w = Some (Inr (), w')"
  shows "inv_after dflt lt T w w'"
proof -
  from ex have n: "queues w this = None"
    by (auto simp: priority_queue_copy_def split: option.splits)
  from ex n obtain ot where ot: "queues w other = Some ot"
    by (auto simp: priority_queue_copy_def split: option.splits)
  note oi = world_invD(1)[OF inv ot]
  note fresh = world_invD(3)[OF inv]
  have ta: "tree_at (nodes w) (root ot) (T other)"
    using oi by (simp add: queue_inv_def owned_tree_def)
  let ?q0 = "\<lparr>root = None, elementCount = elementCount ot, comp = comp ot\<rparr>"
  from ex n ot obtain r w1 where
    cl: "(case root ot of None \<Rightarrow> Some (Inr None, w) | Some p \<Rightarrow> clone_nodes (root ot) w)
           = Some (Inr r, w1)"
    and w': "w' = w1\<lparr>queues := (queues w1)(this \<mapsto> ?q0\<lparr>root := r\<rparr>)\<rparr>"
    by (auto simp: priority_queue_copy_def Let_def split: option.splits sum.splits)
  have post: "clone_post w (T other) (Inr r) w1"
    using clone_root_post[OF ta _ cl] fresh by blast
  note d = clone_postD[OF post]
  from clone_post_InrD[OF post] obtain t' where
    tp: "tree_at (nodes w1) r t'" and dt: "distinct (addrs t')"
    and mp: "map_tree snd t' = map_tree snd (T other)"
    and at: "set (addrs t') = {brk w ..< brk w1}"
    by blast
  let ?T = "T(this := t')"
  let ?A = "{brk w ..< brk w1}"
  have sz: "elementCount ot = size t'"
    using oi size_map_tree_eq[OF mp] by (simp add: queue_inv_def)
  have newq: "queue_inv w' (?q0\<lparr>root := r\<rparr>) t'"
    using tp dt sz w' by (simp add: queue_inv_def owned_tree_def)
  have fr: "\<forall>p. p \<notin> ?A \<longrightarrow> nodes w' p = nodes w p"
  proof (intro allI impI)
    fix p assume "p \<notin> ?A"
    then consider "p < brk w" | "brk w1 \<le> p" by fastforce
    then show "nodes w' p = nodes w p"
    proof cases
      case 1
      then show ?thesis using d(5) w' by simp
    next
      case 2
      then have "nodes w1 p = None" "nodes w p = None" using d(3,4) fresh by auto
      then show ?thesis using w' by simp
    qed
  qed
  have sep: "\<forall>j. j \<notin> {this} \<longrightarrow> queues w j \<noteq> None \<longrightarrow> set (addrs (T j)) \<inter> ?A = {}"
  proof (intro allI impI)
    fix j assume "queues w j \<noteq> None"
    then obtain qj where qj: "queues w j = Some qj" by auto
    show "set (addrs (T j)) \<inter> ?A = {}"
      using queue_tree_below_brk[OF inv qj] by fastforce
  qed
  have fr': "\<forall>p. brk w' \<le> p \<longrightarrow> nodes w' p = None"
    using d(4) w' by simp
  have qs: "queues w' = (queues w)(this \<mapsto> ?q0\<lparr>root := r\<rparr>)"
    using w' d(1) by simp
  have wi: "world_inv ?T w'"
    by (rule world_inv_step[OF inv, where I="{this}" and A="?A"])
       (use qs newq at fr sep fr' in auto)
  have "ordered_world dflt lt ?T w'"
    if a: "agrees dflt lt" "asymmetric lt" and o: "ordered_world dflt lt T w"
  proof -
    from o ot have c: "comp ot = dflt" and h: "heap_ordered lt (T other)"
      by (auto simp: ordered_world_def)
    have "heap_ordered lt t'" using heap_ordered_map[OF mp] h by simp
    then show ?thesis using o qs c by (auto simp: ordered_world_def)
  qed
  then show ?thesis using wi unfolding inv_after_def by blast
qed

lemma dtor_inv:
  assumes inv: "world_inv T w" and ex: "priority_queue_dtor this w = Some (Inr (), w')"
  shows "inv_after dflt lt T w w'"
proof -
  from ex obtain q where q: "queues w this = Some q"
    by (auto simp: priority_queue_dtor_def split: option.splits)
  note qi = world_invD(1)[OF inv q]
  note fresh = world_invD(3)[OF inv]
  have ow: "owned_tree (nodes w) (root q) (T this)" using qi by (simp add: queue_inv_def)
  from ex q obtain w1 where
    cl: "clear_nodes (root q) w = Some (Inr (), w1)"
    and w': "w' = w1\<lparr>queues := (queues w1)(this := None)\<rparr>"
    by (auto simp: priority_queue_dtor_def split: option.splits sum.splits prod.splits)
  have post: "clear_post w (set (addrs (T this))) (Inr ()) w1"
    using clear_nodes_tree[OF ow] cl by simp
  note d = clear_postD[OF post]
  let ?A = "set (addrs (T this))"
  have qs: "queues w' = (queues w)(this := None)" using w' d(1) by simp
  have fr: "\<forall>p. p \<notin> ?A \<longrightarrow> nodes w' p = nodes w p" using d(5) w' by simp
  have sep: "\<forall>j. j \<notin> {this} \<longrightarrow> queues w j \<noteq> None \<longrightarrow> set (addrs (T j)) \<inter> ?A = {}"
  proof (intro allI impI)
    fix j assume j: "j \<notin> {this}" and "queues w j \<noteq> None"
    then obtain qj where qj: "queues w j = Some qj" by auto
    show "set (addrs (T j)) \<inter> ?A = {}"
      using world_invD(2)[OF inv _ qj q] j by auto
  qed
  have fr': "\<forall>p. brk w' \<le> p \<longrightarrow> nodes w' p = None"
  proof (intro allI impI)
    fix p assume "brk w' \<le> p"
    then have "nodes w p = None" using fresh d(4) w' by simp
    then show "nodes w' p = None" using d(6)[of p] w' by auto
  qed
  have wi: "world_inv T w'"
    by (rule world_inv_step[OF inv, where I="{this}" and A="?A"])
       (use qs fr sep fr' in auto)
  have "ordered_world dflt lt T w'" if o: "ordered_world dflt lt T w"
    using o qs by (auto simp: ordered_world_def split: if_splits)
  then show ?thesis using wi unfolding inv_after_def by blast
qed

lemma assign_inv:
  assumes inv: "world_inv T w" and ex: "assign this other w = Some (Inr (), w')"
  shows "inv_after dflt lt T w w'"
proof (cases "this = other")
  case True
  then have "w' = w" using ex by (simp add: assign_def)
  then show ?thesis using inv_after_same[OF inv] by simp
next
  case False
  from ex False obtain ot where ot: "queues w other = Some ot"
    by (auto simp: assign_def split: option.splits)
  note oi = world_invD(1)[OF inv ot]
  note fresh = world_invD(3)[OF inv]
  have ta: "tree_at (nodes w) (root ot) (T other)"
    using oi by (simp add: queue_inv_def owned_tree_def)
  from ex False ot obtain r w1 where
    cl: "(case root ot of None \<Rightarrow> Some (Inr None, w) | Some p \<Rightarrow> clone_nodes (root ot) w)
           = Some (Inr r, w1)"
    by (auto simp: assign_def split: option.splits sum.splits prod.splits)
  have post: "clone_post w (T other) (Inr r) w1"
    using clone_root_post[OF ta _ cl] fresh by blast
  note d = clone_postD[OF post]
  from clone_post_InrD[OF post] obtain t' where
    tp: "tree_at (nodes w1) r t'" and dt: "distinct (addrs t')"
    and mp: "map_tree snd t' = map_tree snd (T other)"
    and at: "set (addrs t') = {brk w ..< brk w1}"
    by blast
  from ex False ot cl obtain q where q1: "queues w1 this = Some q"
    by (auto simp: assign_def split: option.splits sum.splits prod.splits)
  then have q: "queues w this = Some q" using d(1) by simp
  note qi = world_invD(1)[OF inv q]
  have below: "\<forall>a \<in> set (addrs (T this)). a < brk w"
    using queue_tree_below_brk[OF inv q] by blast
  have ow1: "owned_tree (nodes w1) (root q) (T this)"
    using qi below d(5)
    by (auto simp: queue_inv_def owned_tree_def intro: tree_at_frame)
  from clear_nodes_tree[OF ow1] obtain rc w2 where
    cn: "clear_nodes (root q) w1 = Some (rc, w2)"
    and cpost: "clear_post w1 (set (addrs (T this))) rc w2"
    by blast
  have rc: "rc = Inr ()" using ex False ot cl q1 cn
    by (auto simp: assign_def split: option.splits sum.splits prod.splits)
  note e = clear_postD[OF cpost]
  have q2: "queues w2 this = Some q" and o2: "queues w2 other = Some ot"
    using e(1) d(1) q ot by simp_all
  have w': "w' = w2\<lparr>queues := (queues w2)(this \<mapsto>
                  q\<lparr>root := r, elementCount := elementCount ot, comp := comp ot\<rparr>)\<rparr>"
    using ex False ot cl q1 cn rc q2 o2 by (simp add: assign_def)
  let ?qn = "q\<lparr>root := r, elementCount := elementCount ot, comp := comp ot\<rparr>"
  let ?T = "T(this := t')"
  let ?A = "set (addrs (T this)) \<union> {brk w ..< brk w1}"
  have qs: "queues w' = (queues w)(this \<mapsto> ?qn)" using w' e(1) d(1) by simp
  have dj: "set (addrs t') \<inter> set (addrs (T this)) = {}" using at below by fastforce
  have tp2: "tree_at (nodes w2) r t'"
    using dj e(5) by (intro tree_at_frame[OF tp]) auto
  have sz: "elementCount ot = size t'"
    using oi size_map_tree_eq[OF mp] by (simp add: queue_inv_def)
  have newq: "queue_inv w' ?qn t'"
    using tp2 dt sz w' by (simp add: queue_inv_def owned_tree_def)
  have fr: "\<forall>p. p \<notin> ?A \<longrightarrow> nodes w' p = nodes w p"
  proof (intro allI impI)
    fix p assume p: "p \<notin> ?A"
    then have 1: "nodes w' p = nodes w1 p" using e(5) w' by simp
    from p consider "p < brk w" | "brk w1 \<le> p" by fastforce
    then show "nodes w' p = nodes w p"
    proof cases
      case 1
      then show ?thesis using d(5) \<open>nodes w' p = nodes w1 p\<close> by simp
    next
      case 2
      then have "nodes w1 p = None" "nodes w p = None" using d(3,4) fresh by auto
      then show ?thesis using \<open>nodes w' p = nodes w1 p\<close> by simp
    qed
  qed
  have sep: "\<forall>j. j \<notin> {this} \<longrightarrow> queues w j \<noteq> None \<longrightarrow> set (addrs (T j)) \<inter> ?A = {}"
  proof (intro allI impI)
    fix j assume j: "j \<notin> {this}" and "queues w j \<noteq> None"
    then obtain qj where qj: "queues w j = Some qj" by auto
    have "set (addrs (T j)) \<inter> set (addrs (T this)) = {}"
      using world_invD(2)[OF inv _ qj q] j by auto
    moreover have "set (addrs (T j)) \<inter> {brk w ..< brk w1} = {}"
      using queue_tree_below_brk[OF inv qj] by fastforce
    ultimately show "set (addrs (T j)) \<inter> ?A = {}" by blast
  qed
  have fr': "\<forall>p. brk w' \<le> p \<longrightarrow> nodes w' p = None"
  proof (intro allI impI)
    fix p assume "brk w' \<le> p"
    then have "nodes w1 p = None" using d(4) e(4) w' by simp
    then show "nodes w' p = None" using e(6)[of p] w' by auto
  qed
  have wi: "world_inv ?T w'"
    by (rule world_inv_step[OF inv, where I="{this}" and A="?A"])
       (use qs newq at fr sep fr' in auto)
  have "ordered_world dflt lt ?T w'"
    if a: "agrees dflt lt" "asymmetric lt" and o: "ordered_world dflt lt T w"
  proof -
    from o ot have c: "comp ot = dflt" and h: "heap_ordered lt (T other)"
      by (auto simp: ordered_world_def)
    have "heap_ordered lt t'" using heap_ordered_map[OF mp] h by simp
    then show ?thesis using o qs c by (auto simp: ordered_world_def)
  qed
  then show ?thesis using wi unfolding inv_after_def by blast
qed

lemma exec_success_inv:
  assumes inv: "world_inv T w" and ex: "exec dflt cl w = Some (Inr (), w')"
  shows "inv_after dflt lt T w w'"
proof (cases cl)
  case (Construct this)
  then show ?thesis using ctor_inv[OF inv] ex by simp
next
  case (CopyConstruct this other)
  then show ?thesis using copy_inv[OF inv] ex by simp
next
  case (Destroy this)
  then show ?thesis using dtor_inv[OF inv] ex by simp
next
  case (Assign this other)
  then show ?thesis using assign_inv[OF inv] ex by simp
next
  case (Top this)
  then have "w' = w" using ex
    by (auto simp: top_pq_def split: option.splits bool.splits)
  then show ?thesis using inv_after_same[OF inv] by simp
next
  case (Push this v)
  then show ?thesis using push_inv[OF inv] ex by simp
next
  case (Pop this)
  then show ?thesis using pop_inv[OF inv] ex by simp
next
  case (Size this)
  then have "w' = w" using ex by auto
  then show ?thesis using inv_after_same[OF inv] by simp
next
  case (Empty this)
  then have "w' = w" using ex by auto
  then show ?thesis using inv_after_same[OF inv] by simp
next
  case (Merge this other)
  then show ?thesis using merge_pq_inv[OF inv] ex by simp
qed

lemma reachable_inv:
  assumes "reachable dflt w"
  shows "\<exists>T. world_inv T w \<and> (agrees dflt lt \<and> asymmetric lt \<longrightarrow> ordered_world dflt lt T w)"
  using assms
proof (induction rule: reachable.induct)
  case (start c nf af k)
  have "world_inv (\<lambda>i. Leaf) \<lparr>nodes = (\<lambda>p. None), queues = (\<lambda>i. None), cstate = c, node_faults = nf,
             array_faults = af, brk = k\<rparr>"
    by (simp add: world_inv_def)
  moreover have "ordered_world dflt lt (\<lambda>i. Leaf) \<lparr>nodes = (\<lambda>p. None), queues = (\<lambda>i. None), cstate = c,
             node_faults = nf, array_faults = af, brk = k\<rparr>"
    by (simp add: ordered_world_def)
  ultimately show ?case by blast
next
  case (env w k c nf af)
  then obtain T where T: "world_inv T w"
    "agrees dflt lt \<and> asymmetric lt \<longrightarrow> ordered_world dflt lt T w" by blast
  have "world_inv T (with_env c nf af k w)" using world_inv_with_env[OF T(1) env(2)] .
  moreover have "ordered_world dflt lt T (with_env c nf af k w) = ordered_world dflt lt T w"
    by (simp add: ordered_world_def)
  ultimately show ?case using T(2) by blast
next
  case (call w cl w')
  then obtain T where T: "world_inv T w"
    "agrees dflt lt \<and> asymmetric lt \<longrightarrow> ordered_world dflt lt T w" by blast
  from exec_success_inv[OF T(1) call(2), of lt] T(2) show ?case
    unfolding inv_after_def by blast
qed

lemma reachable_queue_ordered:
  assumes "reachable dflt w" "agrees dflt lt" "asymmetric lt" "queues w this = Some q"
  shows "\<exists>t. queue_inv w q t \<and> heap_ordered lt t"
proof -
  from reachable_inv[OF assms(1), of lt] assms(2,3) obtain T where
    T: "world_inv T w" "ordered_world dflt lt T w" by blast
  have "queue_inv w q (T this)" using world_invD(1)[OF T(1) assms(4)] .
  moreover have "heap_ordered lt (T this)" using T(2) assms(4) by (auto simp: ordered_world_def)
  ultimately show ?thesis by blast
qed

section \<open>The maximum is at the root\<close>

lemma agrees_less_cmp: "agrees less_cmp (<)"
  by (simp add: agrees_def less_cmp_def)

lemma strict_weak_order_less: "strict_weak_order ((<) :: int \<Rightarrow> int \<Rightarrow> bool)"
  unfolding strict_weak_order_def by auto

lemma reachable_pushed_5_8: "reachable less_cmp pushed_5_8"
proof -
  let ?w0 = "\<lparr>nodes = (\<lambda>p. None), queues = (\<lambda>i. None), cstate = (), node_faults = [],
      array_faults = [], brk = 0\<rparr> :: (int, unit) world"
  let ?w1 = "?w0\<lparr>queues := [0 \<mapsto> \<lparr>root = None, elementCount = 0, comp = less_cmp\<rparr>]\<rparr>"
  let ?w2 = "\<lparr>nodes = [0 \<mapsto> \<lparr>value = 5::int, left = None, right = None\<rparr>],
      queues = [0 \<mapsto> \<lparr>root = Some 0, elementCount = 1, comp = less_cmp\<rparr>],
      cstate = (), node_faults = [], array_faults = [], brk = 1\<rparr>"
  have r0: "reachable less_cmp ?w0" by (rule reachable.start)
  have e1: "exec less_cmp (Construct 0) ?w0 = Some (Inr (), ?w1)"
    by (simp add: priority_queue_ctor_def)
  have e2: "exec less_cmp (Push 0 5) ?w1 = Some (Inr (), ?w2)"
    by (simp add: push_def new_Node_def merge_nodes.simps)
  have e3: "exec less_cmp (Push 0 8) ?w2 = Some (Inr (), pushed_5_8)"
    by (simp add: push_def pushed_5_8_def new_Node_def merge_nodes.simps less_cmp_def
        MergeGuard_ctor_def MergeGuard_dtor_def commit_def install_and_swap_def
        set_left_def set_right_def numeral_2_eq_2 fun_upd_twist)
  show ?thesis
    using reachable.call[OF reachable.call[OF reachable.call[OF r0 e1] e2] e3] .
qed

text \<open>
  C2. In every world reached by calls that returned normally, when the
  comparison of the queues decides a strict weak ordering \<open>lt\<close>, \<open>top\<close> on a
  queue whose count is not zero returns, without changing the world, the value
  \<open>v\<close> of a node of the queue's tree, and no element of the queue is ordered
  above it: \<open>lt v y\<close> is false for every element \<open>y\<close> of the queue.
\<close>

theorem top_is_maximum:
  assumes "reachable dflt w" and "agrees dflt lt" and "strict_weak_order lt"
    and "queues w this = Some q" and "elementCount q \<noteq> 0"
  shows "\<exists>v t. top_pq this w = Some (Inr v, w) \<and> queue_inv w q t \<and>
           v \<in> set (elems t) \<and> (\<forall>y \<in> set (elems t). \<not> lt v y)"
proof -
  note asym = strict_weak_order_asymmetric[OF assms(3)]
  from reachable_queue_ordered[OF assms(1,2) asym assms(4)] obtain t where
    qi: "queue_inv w q t" and h: "heap_ordered lt t" by blast
  from qi assms(5) obtain l ax r where t: "t = Br l ax r"
    by (cases t) (auto simp: queue_inv_def)
  obtain a x where ax: "ax = (a, x)" by (cases ax)
  from qi t ax obtain n where rt: "root q = Some a" and n: "nodes w a = Some n" and v: "value n = x"
    by (auto simp: queue_inv_def owned_tree_def tree_at_Br)
  have top: "top_pq this w = Some (Inr x, w)"
    using assms(4,5) rt n v by (simp add: top_pq_def empty_pq_def)
  have mem: "x \<in> set (elems t)" using t ax by (simp add: elems_def)
  have mx: "\<not> lt x y" if y: "y \<in> set (elems t)" for y
  proof -
    from y t ax consider "y = x" | "y \<in> set (elems l)" | "y \<in> set (elems r)"
      by (auto simp: elems_def)
    then show ?thesis
    proof cases
      case 1
      then show ?thesis using assms(3) by (simp add: strict_weak_order_def)
    next
      case 2
      then show ?thesis using heap_ordered_root_max[OF assms(3), of l x y] h t ax by simp
    next
      case 3
      then show ?thesis using heap_ordered_root_max[OF assms(3), of r x y] h t ax by simp
    qed
  qed
  show ?thesis using top qi mem mx by blast
qed

theorem top_is_maximum_witness:
  "reachable less_cmp pushed_5_8 \<and> agrees less_cmp (<) \<and>
   strict_weak_order ((<) :: int \<Rightarrow> int \<Rightarrow> bool) \<and>
   queues pushed_5_8 0 = Some \<lparr>root = Some 1, elementCount = 2, comp = less_cmp\<rparr> \<and>
   elementCount \<lparr>root = Some 1, elementCount = 2, comp = less_cmp\<rparr> \<noteq> 0 \<and>
   top_pq 0 pushed_5_8 = Some (Inr 8, pushed_5_8) \<and>
   (\<exists>v t. top_pq 0 pushed_5_8 = Some (Inr v, pushed_5_8) \<and>
      queue_inv pushed_5_8 \<lparr>root = Some 1, elementCount = 2, comp = less_cmp\<rparr> t \<and>
      v \<in> set (elems t) \<and> (\<forall>y \<in> set (elems t). \<not> v < y))"
proof -
  let ?q = "\<lparr>root = Some 1, elementCount = 2, comp = less_cmp\<rparr>"
  have q: "queues pushed_5_8 0 = Some ?q" by (simp add: pushed_5_8_def)
  have c: "elementCount ?q \<noteq> 0" by simp
  have t: "top_pq 0 pushed_5_8 = Some (Inr 8, pushed_5_8)"
    by (simp add: top_pq_def empty_pq_def pushed_5_8_def)
  note th = top_is_maximum[OF reachable_pushed_5_8 agrees_less_cmp strict_weak_order_less q c]
  show ?thesis
    by (intro conjI reachable_pushed_5_8 agrees_less_cmp strict_weak_order_less q c t th)
qed

text \<open>
  C3. Let the comparison decide a strict weak ordering \<open>lt\<close>. In every world
  reached by calls that returned normally, the tree of every queue is
  heap-ordered: no node under which there is a child is ordered below that
  child. And for two heap-ordered trees of the store, which as two trees have no
  node in common, \<open>merge_nodes\<close> has an outcome, it returns whenever the
  comparison does not throw, and what it returns points to a heap-ordered tree
  made of exactly the nodes of the two trees, each with its address and its
  value.
\<close>

theorem heap_order_invariant:
  assumes "agrees dflt lt" and "strict_weak_order lt"
  shows "(reachable dflt w \<and> queues w this = Some q \<longrightarrow>
            (\<exists>t. queue_inv w q t \<and> heap_ordered lt t)) \<and>
         (tree_at (nodes w0) a ta \<and> tree_at (nodes w0) b tb \<and> distinct (addrs ta @ addrs tb) \<and>
          heap_ordered lt ta \<and> heap_ordered lt tb \<longrightarrow>
            (\<exists>res w'. merge_nodes dflt a b w0 = Some (res, w') \<and>
               (never_fails dflt G \<and> cstate w0 \<in> G \<longrightarrow> (\<exists>r. res = Inr r)) \<and>
               (\<forall>r. res = Inr r \<longrightarrow>
                  (\<exists>t. tree_at (nodes w') r t \<and> heap_ordered lt t \<and>
                       mset (labels t) = mset (labels ta) + mset (labels tb)))))"
proof -
  note asym = strict_weak_order_asymmetric[OF assms(2)]
  show ?thesis
  proof (intro conjI impI)
    assume "reachable dflt w \<and> queues w this = Some q"
    then show "\<exists>t. queue_inv w q t \<and> heap_ordered lt t"
      using reachable_queue_ordered[OF _ assms(1) asym, of w this q] by simp
  next
    assume h: "tree_at (nodes w0) a ta \<and> tree_at (nodes w0) b tb \<and>
      distinct (addrs ta @ addrs tb) \<and> heap_ordered lt ta \<and> heap_ordered lt tb"
    then have 1: "tree_at (nodes w0) a ta" and 2: "tree_at (nodes w0) b tb"
      and 3: "distinct (addrs ta @ addrs tb)" and 4: "heap_ordered lt ta"
      and 5: "heap_ordered lt tb" by simp_all
    show "\<exists>res w'. merge_nodes dflt a b w0 = Some (res, w') \<and>
               (never_fails dflt G \<and> cstate w0 \<in> G \<longrightarrow> (\<exists>r. res = Inr r)) \<and>
               (\<forall>r. res = Inr r \<longrightarrow>
                  (\<exists>t. tree_at (nodes w') r t \<and> heap_ordered lt t \<and>
                       mset (labels t) = mset (labels ta) + mset (labels tb)))"
      using merge_nodes_heap_ordered[OF assms(1) asym 1 2 3 4 5, of G] .
  qed
qed

theorem heap_order_invariant_witness:
  "agrees less_cmp (<) \<and> strict_weak_order ((<) :: int \<Rightarrow> int \<Rightarrow> bool) \<and>
   reachable less_cmp pushed_5_8 \<and>
   queues pushed_5_8 0 = Some \<lparr>root = Some 1, elementCount = 2, comp = less_cmp\<rparr> \<and>
   (\<exists>t. queue_inv pushed_5_8 \<lparr>root = Some 1, elementCount = 2, comp = less_cmp\<rparr> t \<and>
        heap_ordered (<) t) \<and>
   tree_at (nodes two_nodes) (Some 0) (Br Leaf (0, 5) Leaf) \<and>
   tree_at (nodes two_nodes) (Some 1) (Br Leaf (1, 8) Leaf) \<and>
   distinct (addrs (Br Leaf (0::nat, 5::int) Leaf) @ addrs (Br Leaf (1::nat, 8::int) Leaf)) \<and>
   heap_ordered (<) (Br Leaf (0::nat, 5::int) Leaf) \<and>
   heap_ordered (<) (Br Leaf (1::nat, 8::int) Leaf) \<and>
   never_fails less_cmp UNIV \<and> cstate two_nodes \<in> UNIV \<and>
   (\<exists>r w' t. merge_nodes less_cmp (Some 0) (Some 1) two_nodes = Some (Inr r, w') \<and>
      tree_at (nodes w') r t \<and> heap_ordered (<) t \<and>
      mset (labels t) = mset (labels (Br Leaf (0, 5) Leaf)) + mset (labels (Br Leaf (1, 8) Leaf)))"
proof -
  let ?q = "\<lparr>root = Some 1, elementCount = 2, comp = less_cmp\<rparr>"
  let ?ta = "Br Leaf (0::nat, 5::int) Leaf"
  let ?tb = "Br Leaf (1::nat, 8::int) Leaf"
  have q: "queues pushed_5_8 0 = Some ?q" by (simp add: pushed_5_8_def)
  have a: "tree_at (nodes two_nodes) (Some 0) ?ta" by (simp add: two_nodes_def)
  have b: "tree_at (nodes two_nodes) (Some 1) ?tb" by (simp add: two_nodes_def)
  have d: "distinct (addrs ?ta @ addrs ?tb)" by simp
  have ha: "heap_ordered (<) ?ta" by simp
  have hb: "heap_ordered (<) ?tb" by simp
  have u: "cstate two_nodes \<in> UNIV" by simp
  note th = heap_order_invariant[OF agrees_less_cmp strict_weak_order_less,
      where w=pushed_5_8 and this=0 and q="?q"
      and ?w0.0=two_nodes and a="Some 0" and ta="?ta" and b="Some 1" and tb="?tb" and G=UNIV]
  from th[THEN conjunct1] reachable_pushed_5_8 q
  have c1: "\<exists>t. queue_inv pushed_5_8 ?q t \<and> heap_ordered (<) t"
    by simp
  from th[THEN conjunct2, THEN mp, OF conjI[OF a conjI[OF b conjI[OF d conjI[OF ha hb]]]]]
  obtain res w' where m: "merge_nodes less_cmp (Some 0) (Some 1) two_nodes = Some (res, w')"
    and n: "never_fails less_cmp UNIV \<and> cstate two_nodes \<in> UNIV \<longrightarrow> (\<exists>r. res = Inr r)"
    and p: "\<forall>r. res = Inr r \<longrightarrow>
                  (\<exists>t. tree_at (nodes w') r t \<and> heap_ordered (<) t \<and>
                       mset (labels t) = mset (labels ?ta) + mset (labels ?tb))"
    by (elim exE conjE)
  from n never_fails_less_cmp u obtain r where r: "res = Inr r" by auto
  from p r obtain t where "tree_at (nodes w') r t \<and> heap_ordered (<) t \<and>
                       mset (labels t) = mset (labels ?ta) + mset (labels ?tb)" by auto
  with m r
  have c2: "\<exists>r w' t. merge_nodes less_cmp (Some 0) (Some 1) two_nodes = Some (Inr r, w') \<and>
      tree_at (nodes w') r t \<and> heap_ordered (<) t \<and>
      mset (labels t) = mset (labels ?ta) + mset (labels ?tb)"
    by blast
  show ?thesis
    by (intro conjI agrees_less_cmp strict_weak_order_less reachable_pushed_5_8 q c1 a b d ha hb
        never_fails_less_cmp u c2)
qed

section \<open>Failed calls and the consistency of the queues\<close>

text \<open>
  A call that ends with an exception leaves every queue consistent with the
  tree it had (\<open>exec_failure_inv\<close>), unless it is an assignment during which an
  allocation of the work stack of \<^verbatim>\<open>clear_nodes\<close> fails.
\<close>

lemma world_inv_same:
  assumes "world_inv T w" "nodes w' = nodes w" "queues w' = queues w" "brk w \<le> brk w'"
  shows "world_inv T w'"
  using assms unfolding world_inv_def queue_inv_def by simp

lemma merge_nodes_throw_brk:
  "merge_nodes cmp a b w = Some (Inl e, w') \<Longrightarrow> brk w' = brk w"
  using upto_cstate_fields[OF merge_nodes_throw_unchanged] by blast

lemma push_throw_brk:
  assumes "push this v w = Some (Inl e, w')"
  shows "brk w \<le> brk w'"
  using assms
  by (auto simp: push_def new_Node_def set_right_def set_left_def delete_Node_def
      split: option.splits list.splits sum.splits Option.bind_splits
      dest!: merge_nodes_throw_brk)

lemma pop_throw_brk:
  assumes "pop this w = Some (Inl e, w')"
  shows "brk w \<le> brk w'"
  using assms
  by (auto simp: pop_def empty_pq_def Let_def
      split: option.splits bool.splits sum.splits Option.bind_splits if_splits
      dest!: merge_nodes_throw_brk)

lemma merge_pq_throw_brk:
  assumes "merge_pq this other w = Some (Inl e, w')"
  shows "brk w \<le> brk w'"
  using assms
  by (auto simp: merge_pq_def split: option.splits sum.splits if_splits
      dest!: merge_nodes_throw_brk)

lemma clone_failure_inv:
  assumes inv: "world_inv T w" and ot: "queues w other = Some ot"
    and cl: "clone_nodes (root ot) w = Some (Inl e, w1)"
  shows "world_inv T w1"
proof -
  note fresh = world_invD(3)[OF inv]
  have ta: "tree_at (nodes w) (root ot) (T other)"
    using world_invD(1)[OF inv ot] by (simp add: queue_inv_def owned_tree_def)
  have post: "clone_post w (T other) (Inl e) w1"
    using clone_nodes_tree[OF ta] fresh cl by auto
  note d = clone_postD[OF post]
  let ?A = "{brk w ..< brk w1}"
  have fr: "\<forall>p. p \<notin> ?A \<longrightarrow> nodes w1 p = nodes w p"
  proof (intro allI impI)
    fix p assume "p \<notin> ?A"
    then consider "p < brk w" | "brk w1 \<le> p" by fastforce
    then show "nodes w1 p = nodes w p"
    proof cases
      case 1
      then show ?thesis using d(5) by simp
    next
      case 2
      then have "nodes w1 p = None" "nodes w p = None" using d(3,4) fresh by auto
      then show ?thesis by simp
    qed
  qed
  have sep: "\<forall>j. j \<notin> {} \<longrightarrow> queues w j \<noteq> None \<longrightarrow> set (addrs (T j)) \<inter> ?A = {}"
  proof (intro allI impI)
    fix j assume "queues w j \<noteq> None"
    then obtain qj where qj: "queues w j = Some qj" by auto
    show "set (addrs (T j)) \<inter> ?A = {}"
      using queue_tree_below_brk[OF inv qj] by fastforce
  qed
  show ?thesis
    by (rule world_inv_step[OF inv, where I="{}" and A="?A"])
       (use d(1,4) fr sep in auto)
qed

lemma exec_failure_inv:
  assumes inv: "world_inv T w" and ex: "exec dflt cl w = Some (Inl e, w')"
    and af: "no_array_fault w \<or> (\<forall>this other. cl \<noteq> Assign this other)"
  shows "world_inv T w'"
proof (cases cl)
  case (Construct this)
  then show ?thesis using ex by (auto simp: priority_queue_ctor_def split: option.splits)
next
  case (CopyConstruct this other)
  with ex obtain ot where ot: "queues w other = Some ot"
    and cl: "clone_nodes (root ot) w = Some (Inl e, w')"
    by (auto simp: priority_queue_copy_def Let_def split: option.splits sum.splits)
  show ?thesis using clone_failure_inv[OF inv ot cl] .
next
  case (Destroy this)
  then show ?thesis using ex
    by (auto simp: priority_queue_dtor_def split: option.splits sum.splits prod.splits)
next
  case (Assign this other)
  then have naf: "no_array_fault w" using af by blast
  from ex Assign have ne: "this \<noteq> other" by (auto simp: assign_def)
  from ex Assign ne obtain ot where ot: "queues w other = Some ot"
    by (auto simp: assign_def split: option.splits)
  note fresh = world_invD(3)[OF inv]
  have ta: "tree_at (nodes w) (root ot) (T other)"
    using world_invD(1)[OF inv ot] by (simp add: queue_inv_def owned_tree_def)
  from ex Assign ne ot obtain rc w1 where
    cl: "(case root ot of None \<Rightarrow> Some (Inr None, w) | Some p \<Rightarrow> clone_nodes (root ot) w)
           = Some (rc, w1)"
    by (auto simp: assign_def split: option.splits)
  show ?thesis
  proof (cases rc)
    case (Inl e1)
    then have "w' = w1" using ex Assign ne ot cl by (simp add: assign_def)
    moreover have "clone_nodes (root ot) w = Some (Inl e1, w1)"
      using cl Inl by (cases "root ot") auto
    ultimately show ?thesis using clone_failure_inv[OF inv ot] by simp
  next
    case (Inr r)
    have post: "clone_post w (T other) (Inr r) w1"
      using clone_root_post[OF ta _ cl[unfolded Inr]] fresh by blast
    note d = clone_postD[OF post]
    from ex Assign ne ot cl Inr obtain q where q1: "queues w1 this = Some q"
      by (auto simp: assign_def split: option.splits)
    then have q: "queues w this = Some q" using d(1) by simp
    have below: "\<forall>a \<in> set (addrs (T this)). a < brk w"
      using queue_tree_below_brk[OF inv q] by blast
    have ow1: "owned_tree (nodes w1) (root q) (T this)"
      using world_invD(1)[OF inv q] below d(5)
      by (auto simp: queue_inv_def owned_tree_def intro: tree_at_frame)
    from clear_nodes_tree[OF ow1] obtain r2 w2 where
      cn: "clear_nodes (root q) w1 = Some (r2, w2)"
      and cpost: "clear_post w1 (set (addrs (T this))) r2 w2"
      by blast
    have "r2 = Inr ()" using clear_postD(8)[OF cpost] d(6) naf by blast
    then have False using ex Assign ne ot cl Inr q1 cn
      by (auto simp: assign_def clear_postD(1)[OF cpost] split: option.splits)
    then show ?thesis ..
  qed
next
  case (Top this)
  then have "w' = w" using ex
    by (auto simp: top_pq_def split: option.splits bool.splits)
  then show ?thesis using inv by simp
next
  case (Push this v)
  have "nodes w (brk w) = None" using world_invD(3)[OF inv] by simp
  then show ?thesis
    using Push ex push_throw[of this v w e w'] push_throw_brk[of this v w e w']
    by (intro world_inv_same[OF inv]) auto
next
  case (Pop this)
  then show ?thesis
    using ex pop_throw[of this w e w'] pop_throw_brk[of this w e w']
    by (intro world_inv_same[OF inv]) auto
next
  case (Size this)
  then show ?thesis using ex by auto
next
  case (Empty this)
  then show ?thesis using ex by auto
next
  case (Merge this other)
  then show ?thesis
    using ex merge_pq_throw[of this other w e w'] merge_pq_throw_brk[of this other w e w']
    by (intro world_inv_same[OF inv]) auto
qed

text \<open>
  The comb is built by pushes alone, and \<^verbatim>\<open>clear_nodes\<close> on it is interrupted
  by the first growth of its work stack: 1022 nodes of the chain have been
  freed by then, the root among them.
\<close>

lemma push_comb_even:
  "exec less_cmp (Push 0 (2 * int n + 2)) (comb n) = Some (Inr (), comb_half n)"
proof (cases n)
  case 0
  then show ?thesis
    by (simp add: push_def comb_def comb_half_def new_Node_def merge_nodes.simps fun_eq_iff)
next
  case (Suc m)
  then show ?thesis
    by (simp add: push_def comb_def comb_half_def new_Node_def merge_nodes.simps less_cmp_def
        MergeGuard_ctor_def MergeGuard_dtor_def commit_def install_and_swap_def
        set_left_def set_right_def comb_node_def fun_eq_iff)
qed

lemma push_comb_odd:
  "exec less_cmp (Push 0 (2 * int n + 1)) (comb_half n) = Some (Inr (), comb (Suc n))"
  apply (simp add: push_def comb_def comb_half_def new_Node_def merge_nodes.simps less_cmp_def
      MergeGuard_ctor_def MergeGuard_dtor_def commit_def install_and_swap_def
      set_left_def set_right_def comb_node_def fun_eq_iff Let_def)
  apply presburger
  done

lemma reachable_comb: "reachable less_cmp (comb n)"
proof (induction n)
  case 0
  let ?w0 = "\<lparr>nodes = (\<lambda>p. None), queues = (\<lambda>i. None), cstate = (), node_faults = [],
      array_faults = [], brk = 0\<rparr> :: (int, unit) world"
  let ?w1 = "?w0\<lparr>queues := [1 \<mapsto> \<lparr>root = None, elementCount = 0, comp = less_cmp\<rparr>]\<rparr>"
  have r0: "reachable less_cmp ?w0" by (rule reachable.start)
  have e1: "exec less_cmp (Construct 1) ?w0 = Some (Inr (), ?w1)"
    by (simp add: priority_queue_ctor_def)
  have e2: "exec less_cmp (Construct 0) ?w1 = Some (Inr (), comb 0)"
    by (simp add: priority_queue_ctor_def comb_def fun_upd_twist)
  show ?case using reachable.call[OF reachable.call[OF r0 e1] e2] .
next
  case (Suc n)
  show ?case
    using reachable.call[OF reachable.call[OF Suc push_comb_even] push_comb_odd] .
qed

lemma reachable_comb_world: "reachable less_cmp comb_world"
  unfolding comb_world_def
  by (rule reachable.env[OF reachable_comb]) (simp add: comb_def)

lemma clear_loop_comb:
  assumes "nodes w = (\<lambda>p. if p < 2048 \<and> (odd p \<or> p \<le> 2 * k) then Some (comb_node p) else None)"
    and "array_faults w = Some e # af" and "1 \<le> k" and "k \<le> 1023"
  shows "clear_loop (2 * k # map (\<lambda>i. 2 * i + 1) [Suc k ..< 1024]) 1024 w
           = Some (Inl e, w\<lparr>nodes := torn_nodes, array_faults := af\<rparr>)"
  using assms
proof (induction k arbitrary: w)
  case 0
  then show ?case by simp
next
  case (Suc k)
  show ?case
  proof (cases "k = 0")
    case True
    have n: "nodes w = torn_nodes" using Suc.prems(1) True by (auto simp: torn_nodes_def fun_eq_iff)
    have w: "w\<lparr>nodes := torn_nodes, array_faults := af\<rparr> = w\<lparr>array_faults := af\<rparr>"
      using n by (cases w) simp
    show ?thesis
      unfolding w using True Suc.prems(1,2)
      by (subst clear_loop.simps)
         (simp add: push_pending_def new_array_def comb_node_def)
  next
    case False
    let ?w3 = "w\<lparr>nodes := (nodes w)(2 * Suc k := None)\<rparr>"
    have n3: "nodes ?w3 = (\<lambda>p. if p < 2048 \<and> (odd p \<or> p \<le> 2 * k) then Some (comb_node p) else None)"
      using Suc.prems(1) by (auto simp: fun_eq_iff)
    have af3: "array_faults ?w3 = Some e # af" using Suc.prems(2) by simp
    have k: "1 \<le> k" "k \<le> 1023" using False Suc.prems(4) by auto
    have ih: "clear_loop (2 * k # map (\<lambda>i. 2 * i + 1) [Suc k ..< 1024]) 1024 ?w3
           = Some (Inl e, w\<lparr>nodes := torn_nodes, array_faults := af\<rparr>)"
      using Suc.IH[OF n3 af3 k] by simp
    have up: "[Suc k ..< 1024] = Suc k # [Suc (Suc k) ..< 1024]"
      using Suc.prems(4) by (simp add: upt_conv_Cons)
    show ?thesis
      using Suc.prems(1,4) False ih
      apply (subst clear_loop.simps)
      apply (simp add: push_pending_def comb_node_def delete_Node_def up)
      apply (intro impI)
      apply linarith
      done
  qed
qed

lemma clear_nodes_comb_world:
  "clear_nodes (Some 2046) comb_world = Some (Inl (foreign 1), torn_world)"
proof -
  let ?w1 = "comb_world\<lparr>array_faults := [Some (foreign 1)]\<rparr>"
  have n: "nodes ?w1 = (\<lambda>p. if p < 2048 \<and> (odd p \<or> p \<le> 2 * 1023) then Some (comb_node p) else None)"
    by (auto simp: comb_world_def comb_def fun_eq_iff)
  have a: "array_faults ?w1 = Some (foreign 1) # []" by simp
  have "clear_loop (2 * 1023 # map (\<lambda>i. 2 * i + 1) [Suc 1023 ..< 1024]) 1024 ?w1
          = Some (Inl (foreign 1), ?w1\<lparr>nodes := torn_nodes, array_faults := []\<rparr>)"
    by (rule clear_loop_comb[OF n a]) simp_all
  then have "clear_loop [2046] 1024 ?w1 = Some (Inl (foreign 1), torn_world)"
    by (simp add: torn_world_def)
  moreover have "new_array comb_world = (Inr (), ?w1)"
    by (simp add: new_array_def comb_world_def)
  ultimately show ?thesis by (simp add: clear_nodes_def)
qed

text \<open>
  C5, at the failing input. The queue at address 0 holds the 2048 elements
  pushed as 2, 1, 4, 3, \<dots>, 2048, 2047 and is consistent. The assignment
  \<^verbatim>\<open>q0 = q1\<close> of the empty queue 1 to it clones nothing and then calls
  \<^verbatim>\<open>clear_nodes(root)\<close>, whose work stack of 1024 entries has to grow once 1023
  leaves are pending; that \<^verbatim>\<open>new Node*[2048]\<close> throws \<^verbatim>\<open>std::bad_alloc\<close>, which
  leaves \<^verbatim>\<open>operator=\<close> before \<^verbatim>\<open>root\<close> and \<^verbatim>\<open>elementCount\<close> are written.
  After the failed call the queue still has the root pointer 2046 and the count
  2048, but the node at 2046 has been freed with 1021 others: the count is not
  the number of nodes reachable from the root, for no tree at all.
\<close>

theorem failed_assign_leaves_dangling_root:
  "reachable less_cmp comb_world \<and>
   queues comb_world 0 = Some \<lparr>root = Some 2046, elementCount = 2048, comp = less_cmp\<rparr> \<and>
   (\<exists>t. queue_inv comb_world \<lparr>root = Some 2046, elementCount = 2048, comp = less_cmp\<rparr> t) \<and>
   exec less_cmp (Assign 0 1) comb_world = Some (Inl (foreign 1), torn_world) \<and>
   queues torn_world 0 = Some \<lparr>root = Some 2046, elementCount = 2048, comp = less_cmp\<rparr> \<and>
   nodes torn_world 2046 = None \<and>
   (\<forall>t. \<not> queue_inv torn_world \<lparr>root = Some 2046, elementCount = 2048, comp = less_cmp\<rparr> t)"
proof -
  let ?q = "\<lparr>root = Some 2046, elementCount = 2048, comp = less_cmp\<rparr>"
  have q: "queues comb_world 0 = Some ?q" by (simp add: comb_world_def comb_def)
  from reachable_inv[OF reachable_comb_world, of "(<)"] obtain T where "world_inv T comb_world"
    by blast
  then have c: "\<exists>t. queue_inv comb_world ?q t" using world_invD(1) q by blast
  have ex: "exec less_cmp (Assign 0 1) comb_world = Some (Inl (foreign 1), torn_world)"
    using clear_nodes_comb_world by (simp add: assign_def q) (simp add: comb_world_def comb_def)
  have q': "queues torn_world 0 = Some ?q" using q by (simp add: torn_world_def)
  have g: "nodes torn_world 2046 = None" by (simp add: torn_world_def torn_nodes_def)
  have bad: "\<forall>t. \<not> queue_inv torn_world ?q t"
    using g by (auto simp: queue_inv_def owned_tree_def tree_at_Some)
  show ?thesis by (intro conjI reachable_comb_world q c ex q' g bad)
qed

section \<open>Self-merge and self-assignment\<close>

text \<open>
  C7. Merging a queue with itself returns normally and leaves the whole world
  as it was: no queue, no node and no state of the comparison has changed, so no
  comparison was made.
\<close>

theorem merge_self_noop: "merge_pq q q w = Some (Inr (), w)"
  by (simp add: merge_pq_def)

text \<open>
  C10. Assigning a queue to itself returns normally and leaves the whole world
  as it was: nothing was allocated or freed, and the queue's root, count and
  comparison are untouched.
\<close>

theorem assign_self_noop: "assign q q w = Some (Inr (), w)"
  by (simp add: assign_def)

end
